theory Spec2Isabelle
  imports Main "HOL-Library.Word"
begin

unbundle bit_operations_syntax

section \<open>Strings, lower-casing and the content hash\<close>

text \<open>
  A Go string is a sequence of bytes; it is modelled as a \<open>string\<close> (a list of
  8-bit characters). The functions of the Go standard library that the harvester calls
  and that are not written out here are taken as parameters, collected in the record
  \<open>stdlib\<close>:
  \<^item> \<open>timeParse\<close> is \<^verbatim>\<open>time.Parse(time.RFC3339, _)\<close>, \<open>None\<close> when it returns an error;
  \<^item> \<open>mapToLower\<close> is \<^verbatim>\<open>strings.Map(unicode.ToLower, _)\<close>, the path that
    \<^verbatim>\<open>strings.ToLower\<close> takes on a string with a byte outside ASCII.
\<close>

type_synonym byte = "8 word"
type_synonym u32 = "32 word"

record 't stdlib =
  timeParse :: "string \<Rightarrow> 't option"
  mapToLower :: "string \<Rightarrow> string"

definition isASCII :: "char \<Rightarrow> bool" where
  "isASCII c = ((of_char c :: nat) < 128)"

definition isUpper :: "char \<Rightarrow> bool" where
  "isUpper c = (65 \<le> (of_char c :: nat) \<and> (of_char c :: nat) \<le> 90)"

definition lowerASCII :: "char \<Rightarrow> char" where
  "lowerASCII c = (if isUpper c then char_of ((of_char c :: nat) + 32) else c)"

text \<open>
  \<^verbatim>\<open>strings.ToLower\<close>: a string of ASCII bytes only is returned as it is when it
  has no upper-case letter, and with \<open>'a' - 'A'\<close> added to each of its upper-case
  letters otherwise; any other string goes through the Unicode mapping.
\<close>

definition ToLower :: "'t stdlib \<Rightarrow> string \<Rightarrow> string" where
  "ToLower lib s =
     (if list_all isASCII s
      then (if \<not> list_ex isUpper s then s else map lowerASCII s)
      else mapToLower lib s)"

subsection \<open>SHA-1 (\<^verbatim>\<open>crypto/sha1\<close>)\<close>

definition rotl :: "nat \<Rightarrow> u32 \<Rightarrow> u32" where
  "rotl n x = push_bit n x OR drop_bit (32 - n) x"

definition be32 :: "u32 \<Rightarrow> byte list" where
  "be32 x = [ucast (drop_bit 24 x), ucast (drop_bit 16 x), ucast (drop_bit 8 x), ucast x]"

definition be64 :: "64 word \<Rightarrow> byte list" where
  "be64 x = map (\<lambda>i. ucast (drop_bit (8 * i) x)) [7, 6, 5, 4, 3, 2, 1, 0]"

text \<open>
  Padding: the byte \<open>0x80\<close>, zero bytes up to 56 modulo 64, and the length of the
  message in bits as a 64-bit big-endian number.
\<close>

definition sha1_pad :: "byte list \<Rightarrow> byte list" where
  "sha1_pad m = m @ [0x80] @ replicate ((119 - length m mod 64) mod 64) 0
     @ be64 (push_bit 3 (of_nat (length m)))"

fun words_of :: "byte list \<Rightarrow> u32 list" where
  "words_of (b0 # b1 # b2 # b3 # bs) =
     (push_bit 24 (ucast b0) OR push_bit 16 (ucast b1) OR push_bit 8 (ucast b2) OR ucast b3)
       # words_of bs"
| "words_of _ = []"

fun schedule :: "nat \<Rightarrow> u32 list \<Rightarrow> u32 list" where
  "schedule 0 w = w"
| "schedule (Suc k) w =
     schedule k (w @ [rotl 1 (w ! (length w - 3) XOR w ! (length w - 8)
                         XOR w ! (length w - 14) XOR w ! (length w - 16))])"

definition sha1_f :: "nat \<Rightarrow> u32 \<Rightarrow> u32 \<Rightarrow> u32 \<Rightarrow> u32" where
  "sha1_f i b c d =
     (if i < 20 then (b AND c) OR (NOT b AND d)
      else if i < 40 then b XOR c XOR d
      else if i < 60 then ((b OR c) AND d) OR (b AND c)
      else b XOR c XOR d)"

definition sha1_k :: "nat \<Rightarrow> u32" where
  "sha1_k i =
     (if i < 20 then 0x5A827999 else if i < 40 then 0x6ED9EBA1
      else if i < 60 then 0x8F1BBCDC else 0xCA62C1D6)"

type_synonym sha1_state = "u32 \<times> u32 \<times> u32 \<times> u32 \<times> u32"

fun sha1_round :: "u32 list \<Rightarrow> sha1_state \<Rightarrow> nat \<Rightarrow> sha1_state" where
  "sha1_round w (a, b, c, d, e) i =
     (rotl 5 a + sha1_f i b c d + e + w ! i + sha1_k i, a, rotl 30 b, c, d)"

fun sha1_block :: "sha1_state \<Rightarrow> byte list \<Rightarrow> sha1_state" where
  "sha1_block (h0, h1, h2, h3, h4) p =
     (case foldl (sha1_round (schedule 64 (words_of p))) (h0, h1, h2, h3, h4) [0..<80] of
        (a, b, c, d, e) \<Rightarrow> (h0 + a, h1 + b, h2 + c, h3 + d, h4 + e))"

function sha1_blocks :: "sha1_state \<Rightarrow> byte list \<Rightarrow> sha1_state" where
  "sha1_blocks h p =
     (if length p < 64 then h else sha1_blocks (sha1_block h (take 64 p)) (drop 64 p))"
  by pat_completeness auto
termination
  by (relation "measure (\<lambda>(h, p). length p)") auto

declare sha1_blocks.simps [simp del]

definition sha1_init :: sha1_state where
  "sha1_init = (0x67452301, 0xEFCDAB89, 0x98BADCFE, 0x10325476, 0xC3D2E1F0)"

definition sha1_Sum :: "byte list \<Rightarrow> byte list" where
  "sha1_Sum m =
     (case sha1_blocks sha1_init (sha1_pad m) of
        (h0, h1, h2, h3, h4) \<Rightarrow> be32 h0 @ be32 h1 @ be32 h2 @ be32 h3 @ be32 h4)"

text \<open>\<^verbatim>\<open>fmt.Sprintf("%x", b)\<close> on a byte slice: two lower-case hexadecimal digits a byte.\<close>

definition hexdigit :: "nat \<Rightarrow> char" where
  "hexdigit n = ''0123456789abcdef'' ! n"

definition hex_byte :: "byte \<Rightarrow> string" where
  "hex_byte b = [hexdigit (unat b div 16), hexdigit (unat b mod 16)]"

definition sprintf_x :: "byte list \<Rightarrow> string" where
  "sprintf_x bs = concat (map hex_byte bs)"

definition byte_of_char :: "char \<Rightarrow> byte" where
  "byte_of_char c = of_nat (of_char c)"

record 't sequence =
  URI :: string
  Sequence :: string
  Created :: 't

text \<open>\<^verbatim>\<open>sequence.Hash\<close> (lines 112 to 116).\<close>

definition Hash :: "'t sequence \<Rightarrow> string" where
  "Hash s = sprintf_x (sha1_Sum (map byte_of_char (Sequence s)))"

section \<open>The key-value store\<close>

text \<open>
  The Redis server is outside the repository; its commands are modelled as Redis
  documents them. A key holds a string or a set. A string that is the decimal form of a
  64-bit integer \<open>n\<close>, the only strings that \<^verbatim>\<open>INCRBY\<close> accepts, is \<open>RInt n\<close>; any other
  string is \<open>RStr\<close>. A set is the list of its members, without duplicates, in the order
  they were added; Redis returns the members in an order of its own, so the theorems
  speak of the set of a reply only.
\<close>

datatype rval = RInt int | RStr string | RSet "string list"

type_synonym kvstore = "string \<rightharpoonup> rval"

datatype cmd =
    GET string
  | SET string int
  | INCRBY string int
  | SADD string string
  | SMEMBERS string

datatype resp = IOErr | AppErr | Nil | Status | BulkInt int | BulkStr string
  | Integer int | Array "string list"

definition fits64 :: "int \<Rightarrow> bool" where
  "fits64 n = (- (2 ^ 63) \<le> n \<and> n < 2 ^ 63)"

fun redis_exec :: "cmd \<Rightarrow> kvstore \<Rightarrow> resp \<times> kvstore" where
  "redis_exec (GET k) kv =
     (case kv k of
        None \<Rightarrow> (Nil, kv)
      | Some (RInt n) \<Rightarrow> (BulkInt n, kv)
      | Some (RStr s) \<Rightarrow> (BulkStr s, kv)
      | Some (RSet xs) \<Rightarrow> (AppErr, kv))"
| "redis_exec (SET k n) kv = (Status, kv(k \<mapsto> RInt n))"
| "redis_exec (INCRBY k n) kv =
     (case kv k of
        None \<Rightarrow> (Integer n, kv(k \<mapsto> RInt n))
      | Some (RInt v) \<Rightarrow>
          if fits64 (v + n) then (Integer (v + n), kv(k \<mapsto> RInt (v + n))) else (AppErr, kv)
      | Some (RStr s) \<Rightarrow> (AppErr, kv)
      | Some (RSet xs) \<Rightarrow> (AppErr, kv))"
| "redis_exec (SADD k m) kv =
     (case kv k of
        None \<Rightarrow> (Integer 1, kv(k \<mapsto> RSet [m]))
      | Some (RSet xs) \<Rightarrow>
          if m \<in> set xs then (Integer 0, kv) else (Integer 1, kv(k \<mapsto> RSet (xs @ [m])))
      | Some (RInt v) \<Rightarrow> (AppErr, kv)
      | Some (RStr s) \<Rightarrow> (AppErr, kv))"
| "redis_exec (SMEMBERS k) kv =
     (case kv k of
        None \<Rightarrow> (Array [], kv)
      | Some (RSet xs) \<Rightarrow> (Array xs, kv)
      | Some (RInt v) \<Rightarrow> (AppErr, kv)
      | Some (RStr s) \<Rightarrow> (AppErr, kv))"

subsection \<open>The client's view of a reply (\<^verbatim>\<open>radix.v2/redis\<close>)\<close>

datatype rerr = ErrRespNil | ErrNotInt | ErrNotArray | ErrIO | ErrApp

fun Resp_Err :: "resp \<Rightarrow> rerr option" where
  "Resp_Err IOErr = Some ErrIO"
| "Resp_Err AppErr = Some ErrApp"
| "Resp_Err _ = None"

text \<open>\<^verbatim>\<open>strconv.ParseInt(s, 10, 64)\<close>: an optional sign, then decimal digits only.\<close>

definition digit_val :: "char \<Rightarrow> nat option" where
  "digit_val c =
     (if 48 \<le> (of_char c :: nat) \<and> (of_char c :: nat) \<le> 57
      then Some ((of_char c :: nat) - 48) else None)"

fun digits_val :: "nat \<Rightarrow> string \<Rightarrow> nat option" where
  "digits_val acc [] = Some acc"
| "digits_val acc (c # cs) =
     (case digit_val c of None \<Rightarrow> None | Some d \<Rightarrow> digits_val (10 * acc + d) cs)"

definition ParseInt :: "string \<Rightarrow> int option" where
  "ParseInt s =
     (let neg = (s \<noteq> [] \<and> hd s = CHR ''-'');
          body = (if s \<noteq> [] \<and> (hd s = CHR ''-'' \<or> hd s = CHR ''+'') then tl s else s)
      in if body = [] then None
         else (case digits_val 0 body of
                 None \<Rightarrow> None
               | Some n \<Rightarrow>
                   (let v = (if neg then - int n else int n)
                    in if fits64 v then Some v else None)))"

fun Resp_Int :: "resp \<Rightarrow> rerr + int" where
  "Resp_Int IOErr = Inl ErrIO"
| "Resp_Int AppErr = Inl ErrApp"
| "Resp_Int Nil = Inl ErrRespNil"
| "Resp_Int (Integer n) = Inr n"
| "Resp_Int (BulkInt n) = Inr n"
| "Resp_Int (BulkStr s) = (case ParseInt s of None \<Rightarrow> Inl ErrNotInt | Some n \<Rightarrow> Inr n)"
| "Resp_Int Status = Inl ErrNotInt"
| "Resp_Int (Array xs) = Inl ErrNotInt"

fun Resp_List :: "resp \<Rightarrow> rerr + string list" where
  "Resp_List IOErr = Inl ErrIO"
| "Resp_List AppErr = Inl ErrApp"
| "Resp_List (Array xs) = Inr xs"
| "Resp_List Nil = Inl ErrRespNil"
| "Resp_List _ = Inl ErrNotArray"

section \<open>The harvester (\<^verbatim>\<open>slurper.go\<close>)\<close>

subsection \<open>The world the harvester writes to\<close>

text \<open>
  \<open>fastas\<close> is the directory \<^verbatim>\<open>*fastaDir\<close>: a map from the name of a file in it to the
  file's bytes (\<^verbatim>\<open>path.Join(*fastaDir, hash+".fasta")\<close> names the file
  \<^verbatim>\<open>hash+".fasta"\<close> of that directory). \<open>kv\<close> is the Redis server. \<open>faults\<close> is the
  fate of the coming input/output operations, one entry an operation, \<open>None\<close> for one that
  works; past the end of the list all operations work. A \<open>Refused\<close> operation fails
  with no effect. An \<open>Interrupted n\<close> file write leaves the file with the first \<open>n\<close>
  bytes only; an \<open>Interrupted\<close> Redis command is run by the server and its reply lost.
\<close>

datatype fault = Refused | Interrupted nat

record world =
  fastas :: "string \<rightharpoonup> string"
  kv :: kvstore
  faults :: "fault option list"

definition next_fault :: "world \<Rightarrow> fault option \<times> world" where
  "next_fault w =
     (case faults w of [] \<Rightarrow> (None, w) | f # fs \<Rightarrow> (f, w\<lparr>faults := fs\<rparr>))"

definition Cmd :: "cmd \<Rightarrow> world \<Rightarrow> resp \<times> world" where
  "Cmd c w =
     (case next_fault w of
        (None, w') \<Rightarrow> (fst (redis_exec c (kv w')), w'\<lparr>kv := snd (redis_exec c (kv w'))\<rparr>)
      | (Some Refused, w') \<Rightarrow> (IOErr, w')
      | (Some (Interrupted n), w') \<Rightarrow> (IOErr, w'\<lparr>kv := snd (redis_exec c (kv w'))\<rparr>))"

text \<open>\<^verbatim>\<open>ioutil.WriteFile\<close>: \<open>True\<close> when it returns no error.\<close>

definition WriteFile :: "string \<Rightarrow> string \<Rightarrow> world \<Rightarrow> bool \<times> world" where
  "WriteFile filename file w =
     (case next_fault w of
        (None, w') \<Rightarrow> (True, w'\<lparr>fastas := (fastas w')(filename \<mapsto> file)\<rparr>)
      | (Some Refused, w') \<Rightarrow> (False, w')
      | (Some (Interrupted n), w') \<Rightarrow>
          (False, w'\<lparr>fastas := (fastas w')(filename \<mapsto> take n file)\<rparr>))"

subsection \<open>Flags\<close>

record flags =
  resultLimit :: int
  redisOffsetKey :: string
  redisDedupSetKey :: string
  redisSeqSetPrefix :: string

definition default_flags :: flags where
  "default_flags =
     \<lparr>resultLimit = 100, redisOffsetKey = ''sequenceoffset'',
      redisDedupSetKey = ''sequenceHashSet'', redisSeqSetPrefix = ''sequence''\<rparr>"

subsection \<open>Parsing a page\<close>

record binding =
  Name :: string
  Value :: string
  Datatype :: string

record result =
  Bindings :: "binding list"

record sparqlResult =
  Variables :: "string list"
  Results :: "result list"

text \<open>\<^verbatim>\<open>getValue\<close> (lines 90 to 98); \<open>getValue_bindings\<close> is its loop.\<close>

fun getValue_bindings :: "binding list \<Rightarrow> string \<Rightarrow> string" where
  "getValue_bindings [] name = []"
| "getValue_bindings (b # bs) name =
     (if Name b = name then Value b else getValue_bindings bs name)"

definition getValue :: "result \<Rightarrow> string \<Rightarrow> string" where
  "getValue r name = getValue_bindings (Bindings r) name"

text \<open>Every \<^verbatim>\<open>log.Fatal\<close> of the harvester, which ends the process.\<close>

datatype fetch_failure = PrepareQuery | PrepareRequest | MakeRequest | ReadBody

datatype fatal =
    CouldntFetch fetch_failure
  | CouldntParseXml
  | CouldntParseTime string
  | CouldntWriteFile string
  | CouldntAddHash
  | CouldntAddUri
  | CouldntSetInitialOffset
  | CouldntGetOffset
  | CouldntUpdateOffset

text \<open>
  A response body is represented by what \<^verbatim>\<open>xml.Unmarshal\<close> makes of it: \<open>None\<close> when
  it returns an error, the decoded \<open>sparqlResult\<close> otherwise.
\<close>

type_synonym body = "sparqlResult option"

text \<open>
  \<^verbatim>\<open>parse\<close> (lines 183 to 207); \<open>parse_results\<close> is its loop over the results, which
  ends in \<^verbatim>\<open>log.Fatal\<close> at the first result whose timestamp does not parse.
\<close>

fun parse_results :: "'t stdlib \<Rightarrow> result list \<Rightarrow> fatal + 't sequence list" where
  "parse_results lib [] = Inr []"
| "parse_results lib (r # rs) =
     (case timeParse lib (getValue r ''created'') of
        None \<Rightarrow> Inl (CouldntParseTime (getValue r ''created''))
      | Some t \<Rightarrow>
          (case parse_results lib rs of
             Inl e \<Rightarrow> Inl e
           | Inr ss \<Rightarrow>
               Inr (\<lparr>URI = getValue r ''uri'',
                     Sequence = ToLower lib (getValue r ''elements''),
                     Created = t\<rparr> # ss)))"

definition parse :: "'t stdlib \<Rightarrow> body \<Rightarrow> fatal + 't sequence list" where
  "parse lib bytes =
     (case bytes of
        None \<Rightarrow> Inl CouldntParseXml
      | Some res \<Rightarrow> parse_results lib (Results res))"

subsection \<open>Storing a page\<close>

text \<open>
  \<^verbatim>\<open>process\<close> (lines 253 to 277); \<open>store_seq\<close> is the body of its loop and \<open>fasta_file\<close>
  the bytes \<^verbatim>\<open>fmt.Sprintf(">%s\n%s\n", hash, seq.Sequence)\<close>.
\<close>

definition fasta_file :: "string \<Rightarrow> string \<Rightarrow> string" where
  "fasta_file hash s = ''>'' @ hash @ [CHR 0x0A] @ s @ [CHR 0x0A]"

definition store_seq :: "flags \<Rightarrow> 't sequence \<Rightarrow> world \<Rightarrow> fatal \<times> world + world" where
  "store_seq cfg seq w =
     (let hash = Hash seq;
          filename = hash @ ''.fasta'';
          file = fasta_file hash (Sequence seq);
          (ok, w1) = WriteFile filename file w
      in if \<not> ok then Inl (CouldntWriteFile filename, w1)
         else
           (let (r2, w2) = Cmd (SADD (redisDedupSetKey cfg) hash) w1
            in if Resp_Err r2 \<noteq> None then Inl (CouldntAddHash, w2)
               else
                 (let key = redisSeqSetPrefix cfg @ '':'' @ hash;
                      (r3, w3) = Cmd (SADD key (URI seq)) w2
                  in if Resp_Err r3 \<noteq> None then Inl (CouldntAddUri, w3) else Inr w3)))"

fun process :: "flags \<Rightarrow> 't sequence list \<Rightarrow> world \<Rightarrow> fatal \<times> world + world" where
  "process cfg [] w = Inr w"
| "process cfg (seq # seqs) w =
     (case store_seq cfg seq w of
        Inl e \<Rightarrow> Inl e
      | Inr w' \<Rightarrow> process cfg seqs w')"

subsection \<open>Start-up and the cycle\<close>

text \<open>
  The upstream service at the time of one cycle: from the limit and the offset of the
  query to the body of the response, or \<open>Inl\<close> when the request fails.
\<close>

type_synonym upstream = "int \<Rightarrow> int \<Rightarrow> fetch_failure + body"

definition fetch :: "flags \<Rightarrow> upstream \<Rightarrow> int \<Rightarrow> fatal + body" where
  "fetch cfg up offset =
     (case up (resultLimit cfg) offset of
        Inl f \<Rightarrow> Inl (CouldntFetch f)
      | Inr bytes \<Rightarrow> Inr bytes)"

text \<open>
  \<^verbatim>\<open>main\<close> is \<open>main_slurper\<close>: \<open>startup\<close> is its reading of the offset (lines 134 to
  149), \<open>cycle\<close> the body of its loop (lines 152 to 179).
\<close>

definition startup :: "flags \<Rightarrow> world \<Rightarrow> fatal \<times> world + int \<times> world" where
  "startup cfg w =
     (let (r, w1) = Cmd (GET (redisOffsetKey cfg)) w
      in case Resp_Int r of
           Inr offset \<Rightarrow> Inr (offset, w1)
         | Inl err \<Rightarrow>
             if err = ErrRespNil
             then (let (r2, w2) = Cmd (SET (redisOffsetKey cfg) 0) w1
                   in if Resp_Err r2 \<noteq> None then Inl (CouldntSetInitialOffset, w2)
                      else Inr (0, w2))
             else Inl (CouldntGetOffset, w1))"

definition Second :: int where
  "Second = 1000000000"

definition Hour :: int where
  "Hour = 3600 * Second"

text \<open>
  One turn of the loop of \<^verbatim>\<open>main\<close>: the new offset, the time slept (in nanoseconds) and
  the world, or the \<^verbatim>\<open>log.Fatal\<close> that ended the process and the world it left.
\<close>

definition cycle ::
  "'t stdlib \<Rightarrow> flags \<Rightarrow> upstream \<Rightarrow> int \<Rightarrow> world \<Rightarrow> fatal \<times> world + int \<times> int \<times> world" where
  "cycle lib cfg up offset w =
     (case fetch cfg up offset of
        Inl e \<Rightarrow> Inl (e, w)
      | Inr bytes \<Rightarrow>
          (case parse lib bytes of
             Inl e \<Rightarrow> Inl (e, w)
           | Inr seqs \<Rightarrow>
               (case process cfg seqs w of
                  Inl ew \<Rightarrow> Inl ew
                | Inr w1 \<Rightarrow>
                    (let (r, w2) = Cmd (INCRBY (redisOffsetKey cfg) (int (length seqs))) w1
                     in case Resp_Int r of
                          Inl err \<Rightarrow> Inl (CouldntUpdateOffset, w2)
                        | Inr offset' \<Rightarrow>
                            Inr (offset',
                                 if int (length seqs) < resultLimit cfg
                                 then Hour * 4 else Second * 2,
                                 w2)))))"

text \<open>
  The loop never ends by itself. \<open>harvest\<close> runs it for as many turns as the list of
  upstream states is long, one state a turn; \<open>Inr\<close> is the offset and the world with the
  loop still running, \<open>Inl\<close> the \<^verbatim>\<open>log.Fatal\<close> that ended it.
\<close>

fun harvest ::
  "'t stdlib \<Rightarrow> flags \<Rightarrow> upstream list \<Rightarrow> int \<Rightarrow> world \<Rightarrow> fatal \<times> world + int \<times> world" where
  "harvest lib cfg [] offset w = Inr (offset, w)"
| "harvest lib cfg (up # ups) offset w =
     (case cycle lib cfg up offset w of
        Inl e \<Rightarrow> Inl e
      | Inr (offset', slept, w') \<Rightarrow> harvest lib cfg ups offset' w')"

definition main_slurper ::
  "'t stdlib \<Rightarrow> flags \<Rightarrow> upstream list \<Rightarrow> world \<Rightarrow> fatal \<times> world + int \<times> world" where
  "main_slurper lib cfg ups w =
     (case startup cfg w of
        Inl e \<Rightarrow> Inl e
      | Inr (offset, w') \<Rightarrow> harvest lib cfg ups offset w')"

section \<open>Reconciliation in the web server (\<^verbatim>\<open>synbioblast.go\<close>)\<close>

text \<open>
  A hit of the search tool; \<open>'f\<close> stands for \<^verbatim>\<open>float64\<close>. The field \<^verbatim>\<open>Results\<close> of
  \<^verbatim>\<open>BlastResults\<close> is \<open>Results_blast\<close> here.
\<close>

record 'f blastResult =
  SeqHash :: string
  BitScore :: 'f
  Score :: int
  EValue :: string
  QuerySeq :: string
  Midline :: string
  HitSeq :: string
  URIs :: "string list"

record 'f BlastResults =
  Version :: string
  Reference :: string
  Results_blast :: "'f blastResult list"
  DBNum :: int
  Query :: string
  Error :: string
  Duration :: int
  NumResults :: int

text \<open>
  The pipeline of the client of \<^verbatim>\<open>radix.v2/redis\<close>: the commands appended and not yet
  sent, the replies read and not yet handed out, whether a write has failed before
  (\<^verbatim>\<open>LastCritical\<close>), and \<open>netdown\<close>, whether the next write to the connection fails.
\<close>

record client =
  pending :: "cmd list"
  completed :: "resp list"
  lastCritical :: bool
  netdown :: bool

definition PipeAppend :: "cmd \<Rightarrow> client \<Rightarrow> client" where
  "PipeAppend c cl = cl\<lparr>pending := pending cl @ [c]\<rparr>"

text \<open>
  \<^verbatim>\<open>PipeResp\<close> hands out the next reply that was read; with none left it sends all
  pending commands, reads their replies and hands out the first; with nothing pending it
  answers with the error \<^verbatim>\<open>ErrPipelineEmpty\<close>. The web server sends \<^verbatim>\<open>SMEMBERS\<close> only,
  which leaves Redis as it is, so every reply is computed in the same store \<open>st\<close>.
\<close>

definition PipeResp :: "kvstore \<Rightarrow> client \<Rightarrow> resp \<times> client" where
  "PipeResp st cl =
     (if lastCritical cl then (IOErr, cl)
      else (case completed cl of
              r # rs \<Rightarrow> (r, cl\<lparr>completed := rs\<rparr>)
            | [] \<Rightarrow>
                (case pending cl of
                   [] \<Rightarrow> (AppErr, cl)
                 | p # ps \<Rightarrow>
                     if netdown cl then (IOErr, cl\<lparr>pending := [], lastCritical := True\<rparr>)
                     else (fst (redis_exec p st),
                           cl\<lparr>pending := [],
                              completed := map (\<lambda>q. fst (redis_exec q st)) ps\<rparr>))))"

text \<open>\<^verbatim>\<open>getURIs\<close> (lines 66 to 87); \<open>read_URIs\<close> is its second loop.\<close>

fun read_URIs ::
  "kvstore \<Rightarrow> 'f blastResult list \<Rightarrow> client \<Rightarrow> rerr \<times> client + 'f blastResult list \<times> client" where
  "read_URIs st [] cl = Inr ([], cl)"
| "read_URIs st (x # xs) cl =
     (case PipeResp st cl of
        (r, cl1) \<Rightarrow>
          (case Resp_List r of
             Inl err \<Rightarrow> Inl (err, cl1)
           | Inr uris \<Rightarrow>
               (case read_URIs st xs cl1 of
                  Inl e \<Rightarrow> Inl e
                | Inr (ys, cl2) \<Rightarrow> Inr (x\<lparr>URIs := uris\<rparr> # ys, cl2))))"

text \<open>
  \<open>getURIs prefix st r cl\<close>: \<open>prefix\<close> is the flag \<^verbatim>\<open>*redisSeqSetPrefix\<close>, \<open>st\<close> the
  Redis server, \<open>cl\<close> the global \<^verbatim>\<open>redisClient\<close>. \<open>Inl\<close> is the error returned.
\<close>

definition getURIs ::
  "string \<Rightarrow> kvstore \<Rightarrow> 'f BlastResults \<Rightarrow> client \<Rightarrow> rerr \<times> client + 'f BlastResults \<times> client" where
  "getURIs prefix st r cl =
     (let cl1 = foldl (\<lambda>c x. PipeAppend (SMEMBERS (prefix @ '':'' @ SeqHash x)) c) cl
                  (Results_blast r)
      in case read_URIs st (Results_blast r) cl1 of
           Inl e \<Rightarrow> Inl e
         | Inr (rs, cl2) \<Rightarrow> Inr (r\<lparr>Results_blast := rs\<rparr>, cl2))"

section \<open>Notions of the specification\<close>

text \<open>The identifier set of a content hash in the Dedup Index; empty when the key is not a set.\<close>

definition identifiersFor :: "string \<Rightarrow> kvstore \<Rightarrow> string \<Rightarrow> string set" where
  "identifiersFor prefix st h =
     (case st (prefix @ '':'' @ h) of Some (RSet xs) \<Rightarrow> set xs | _ \<Rightarrow> {})"

text \<open>The set of all content hashes seen.\<close>

definition hashesSeen :: "flags \<Rightarrow> kvstore \<Rightarrow> string set" where
  "hashesSeen cfg st =
     (case st (redisDedupSetKey cfg) of Some (RSet xs) \<Rightarrow> set xs | _ \<Rightarrow> {})"


text \<open>The Cursor: the integer under the offset key, if there is one.\<close>

definition Cursor :: "flags \<Rightarrow> world \<Rightarrow> int option" where
  "Cursor cfg w =
     (case kv w (redisOffsetKey cfg) of Some (RInt n) \<Rightarrow> Some n | _ \<Rightarrow> None)"

text \<open>The effect on the server of a \<^verbatim>\<open>SADD\<close>, and whether the server accepts it.\<close>

definition sadd :: "string \<Rightarrow> string \<Rightarrow> kvstore \<Rightarrow> kvstore" where
  "sadd k m st = snd (redis_exec (SADD k m) st)"

definition sadd_ok :: "string \<Rightarrow> kvstore \<Rightarrow> bool" where
  "sadd_ok k st = (case st k of None \<Rightarrow> True | Some (RSet xs) \<Rightarrow> True | Some _ \<Rightarrow> False)"

text \<open>The files that storing a page writes, a later record of the page over an earlier one.\<close>

fun page_files :: "'t sequence list \<Rightarrow> (string \<rightharpoonup> string)" where
  "page_files [] = Map.empty"
| "page_files (s # ss) =
     [Hash s @ ''.fasta'' \<mapsto> fasta_file (Hash s) (Sequence s)] ++ page_files ss"

section \<open>A library instance and a page for the scenarios\<close>

text \<open>
  The scenarios run the harvester on concrete pages. Their timestamps have the shape
  \<^verbatim>\<open>YYYY-MM-DDTHH:MM:SSZ\<close>, which \<^verbatim>\<open>time.Parse\<close> accepts when the fields are in range
  (it also accepts fractions of a second and numeric zone offsets, which
  \<open>timeParse_utc\<close> refuses), and their strings are ASCII, on which \<open>mapToLower\<close> is
  never called.
\<close>

type_synonym civil = "nat \<times> nat \<times> nat \<times> nat \<times> nat \<times> nat"

definition daysIn :: "nat \<Rightarrow> nat \<Rightarrow> nat" where
  "daysIn m y =
     (if m = 2
      then (if y mod 400 = 0 then 29 else if y mod 100 = 0 then 28
            else if y mod 4 = 0 then 29 else 28)
      else if m = 4 \<or> m = 6 \<or> m = 9 \<or> m = 11 then 30 else 31)"

definition field :: "nat \<Rightarrow> nat \<Rightarrow> string \<Rightarrow> nat option" where
  "field i n s = digits_val 0 (take n (drop i s))"

definition timeParse_utc :: "string \<Rightarrow> civil option" where
  "timeParse_utc s =
     (if length s = 20 \<and> s ! 4 = CHR ''-'' \<and> s ! 7 = CHR ''-'' \<and> s ! 10 = CHR ''T''
         \<and> s ! 13 = CHR '':'' \<and> s ! 16 = CHR '':'' \<and> s ! 19 = CHR ''Z''
      then (case field 0 4 s of None \<Rightarrow> None | Some y \<Rightarrow>
           (case field 5 2 s of None \<Rightarrow> None | Some mo \<Rightarrow>
           (case field 8 2 s of None \<Rightarrow> None | Some d \<Rightarrow>
           (case field 11 2 s of None \<Rightarrow> None | Some h \<Rightarrow>
           (case field 14 2 s of None \<Rightarrow> None | Some mi \<Rightarrow>
           (case field 17 2 s of None \<Rightarrow> None | Some se \<Rightarrow>
              if 1 \<le> mo \<and> mo \<le> 12 \<and> 1 \<le> d \<and> d \<le> daysIn mo y
                 \<and> h < 24 \<and> mi < 60 \<and> se < 60
              then Some (y, mo, d, h, mi, se) else None))))))
      else None)"

definition scenario_lib :: "civil stdlib" where
  "scenario_lib = \<lparr>timeParse = timeParse_utc, mapToLower = (\<lambda>s. s)\<rparr>"

definition mk_result :: "string \<Rightarrow> string \<Rightarrow> string \<Rightarrow> result" where
  "mk_result u e c =
     \<lparr>Bindings = [\<lparr>Name = ''uri'', Value = u, Datatype = ''''\<rparr>,
                  \<lparr>Name = ''elements'', Value = e, Datatype = ''''\<rparr>,
                  \<lparr>Name = ''created'', Value = c, Datatype = ''''\<rparr>]\<rparr>"

text \<open>The page of the end-to-end scenario of the specification.\<close>

definition scenario_page :: sparqlResult where
  "scenario_page =
     \<lparr>Variables = [''uri'', ''elements'', ''created''],
      Results = [mk_result ''u1'' ''ACGT'' ''2020-01-01T00:00:00Z'',
                 mk_result ''u2'' ''acgt'' ''2020-01-02T00:00:00Z'']\<rparr>"

definition rec_u1 :: "civil sequence" where
  "rec_u1 = \<lparr>URI = ''u1'', Sequence = ''acgt'', Created = (2020, 1, 1, 0, 0, 0)\<rparr>"

definition rec_u2 :: "civil sequence" where
  "rec_u2 = \<lparr>URI = ''u2'', Sequence = ''acgt'', Created = (2020, 1, 2, 0, 0, 0)\<rparr>"

text \<open>An empty fasta directory and an empty Redis, with no fault to come.\<close>

definition fresh_world :: world where
  "fresh_world = \<lparr>fastas = Map.empty, kv = Map.empty, faults = []\<rparr>"

text \<open>The world after the first, and after both records of the scenario were stored.\<close>

definition world_u1 :: world where
  "world_u1 =
     \<lparr>fastas = [Hash rec_u1 @ ''.fasta'' \<mapsto> fasta_file (Hash rec_u1) ''acgt''],
      kv = [''sequenceHashSet'' \<mapsto> RSet [Hash rec_u1],
            ''sequence:'' @ Hash rec_u1 \<mapsto> RSet [''u1'']],
      faults = []\<rparr>"

definition world_u12 :: world where
  "world_u12 =
     \<lparr>fastas = [Hash rec_u1 @ ''.fasta'' \<mapsto> fasta_file (Hash rec_u1) ''acgt''],
      kv = [''sequenceHashSet'' \<mapsto> RSet [Hash rec_u1],
            ''sequence:'' @ Hash rec_u1 \<mapsto> RSet [''u1'', ''u2'']],
      faults = []\<rparr>"

section \<open>Notions of the claims about parsing\<close>

text \<open>Two bytes that are the same letter up to case; two strings that differ in case only.\<close>

definition same_letter :: "char \<Rightarrow> char \<Rightarrow> bool" where
  "same_letter x y = (x = y \<or> (isUpper x \<and> y = lowerASCII x) \<or> (isUpper y \<and> x = lowerASCII y))"

definition differ_only_in_case :: "string \<Rightarrow> string \<Rightarrow> bool" where
  "differ_only_in_case a b = list_all2 same_letter a b"

text \<open>A record of the response has a binding of the given name.\<close>

definition has_binding :: "result \<Rightarrow> string \<Rightarrow> bool" where
  "has_binding r name = list_ex (\<lambda>b. Name b = name) (Bindings r)"

text \<open>The record that \<open>parse\<close> makes of a result whose timestamp parses.\<close>

definition to_sequence :: "'t stdlib \<Rightarrow> result \<Rightarrow> 't sequence" where
  "to_sequence lib r =
     \<lparr>URI = getValue r ''uri'',
      Sequence = ToLower lib (getValue r ''elements''),
      Created = the (timeParse lib (getValue r ''created''))\<rparr>"

section \<open>Further scenarios\<close>

text \<open>The coming \<open>n\<close> input/output operations work.\<close>

definition works :: "nat \<Rightarrow> world \<Rightarrow> bool" where
  "works n w = list_all (\<lambda>f. f = None) (take n (faults w))"

text \<open>A page whose only record has no identifier, the record parsed and the world it is stored in.\<close>

definition nameless_page :: sparqlResult where
  "nameless_page =
     \<lparr>Variables = [''uri'', ''elements'', ''created''],
      Results = [\<lparr>Bindings = [\<lparr>Name = ''elements'', Value = ''ACGT'', Datatype = ''''\<rparr>,
                   \<lparr>Name = ''created'', Value = ''2020-01-01T00:00:00Z'', Datatype = ''''\<rparr>]\<rparr>]\<rparr>"

definition rec_nameless :: "civil sequence" where
  "rec_nameless = \<lparr>URI = [], Sequence = ''acgt'', Created = (2020, 1, 1, 0, 0, 0)\<rparr>"

definition world_nameless :: world where
  "world_nameless =
     \<lparr>fastas = [Hash rec_nameless @ ''.fasta'' \<mapsto> fasta_file (Hash rec_nameless) ''acgt''],
      kv = [''sequenceHashSet'' \<mapsto> RSet [Hash rec_nameless],
            ''sequence:'' @ Hash rec_nameless \<mapsto> RSet [[]]],
      faults = []\<rparr>"

text \<open>A page whose only record has no timestamp.\<close>

definition undated_page :: sparqlResult where
  "undated_page =
     \<lparr>Variables = [''uri'', ''elements'', ''created''],
      Results = [\<lparr>Bindings = [\<lparr>Name = ''uri'', Value = ''u1'', Datatype = ''''\<rparr>,
                   \<lparr>Name = ''elements'', Value = ''ACGT'', Datatype = ''''\<rparr>]\<rparr>]\<rparr>"

text \<open>An upstream that answers every query with the given page.\<close>

definition serving :: "sparqlResult \<Rightarrow> upstream" where
  "serving page = (\<lambda>limit offset. Inr (Some page))"

text \<open>
  The world after start-up on an empty Redis, and after one cycle on the page of the
  end-to-end scenario.
\<close>

definition world_started :: world where
  "world_started =
     \<lparr>fastas = Map.empty, kv = [''sequenceoffset'' \<mapsto> RInt 0], faults = []\<rparr>"

definition world_cycled :: world where
  "world_cycled =
     \<lparr>fastas = [Hash rec_u1 @ ''.fasta'' \<mapsto> fasta_file (Hash rec_u1) ''acgt''],
      kv = [''sequenceoffset'' \<mapsto> RInt 2,
            ''sequenceHashSet'' \<mapsto> RSet [Hash rec_u1],
            ''sequence:'' @ Hash rec_u1 \<mapsto> RSet [''u1'', ''u2'']],
      faults = []\<rparr>"

text \<open>
  The world after start-up and the storing of the page of the end-to-end scenario, with
  the offset still to be advanced.
\<close>

definition world_stored :: world where
  "world_stored =
     \<lparr>fastas = [Hash rec_u1 @ ''.fasta'' \<mapsto> fasta_file (Hash rec_u1) ''acgt''],
      kv = [''sequenceoffset'' \<mapsto> RInt 0,
            ''sequenceHashSet'' \<mapsto> RSet [Hash rec_u1],
            ''sequence:'' @ Hash rec_u1 \<mapsto> RSet [''u1'', ''u2'']],
      faults = []\<rparr>"


text \<open>
  A start in which the second operation to come, the first \<^verbatim>\<open>SADD\<close>, is refused, and
  the world in which the cycle on the page of the end-to-end scenario then ends.
\<close>

definition world_faulty :: world where
  "world_faulty =
     \<lparr>fastas = Map.empty, kv = [''sequenceoffset'' \<mapsto> RInt 0],
      faults = [None, Some Refused]\<rparr>"

definition world_crashed :: world where
  "world_crashed =
     \<lparr>fastas = [Hash rec_u1 @ ''.fasta'' \<mapsto> fasta_file (Hash rec_u1) ''acgt''],
      kv = [''sequenceoffset'' \<mapsto> RInt 0], faults = []\<rparr>"

section \<open>Notions of the claims about the cursor\<close>

text \<open>The world that an operation leaves, whether it ended in \<^verbatim>\<open>log.Fatal\<close> or not.\<close>

definition after_store :: "fatal \<times> world + world \<Rightarrow> world" where
  "after_store x = (case x of Inl (e, w) \<Rightarrow> w | Inr w \<Rightarrow> w)"

definition after_cycle :: "fatal \<times> world + int \<times> int \<times> world \<Rightarrow> world" where
  "after_cycle x = (case x of Inl (e, w) \<Rightarrow> w | Inr (offset, slept, w) \<Rightarrow> w)"

definition after_harvest :: "fatal \<times> world + int \<times> world \<Rightarrow> world" where
  "after_harvest x = (case x of Inl (e, w) \<Rightarrow> w | Inr (offset, w) \<Rightarrow> w)"

text \<open>
  The sizes of the pages that the upstream states serve, one a cycle, to a harvester that
  starts at the given offset and moves on by the size of each page.
\<close>

fun page_sizes :: "flags \<Rightarrow> upstream list \<Rightarrow> int \<Rightarrow> nat list" where
  "page_sizes cfg [] offset = []"
| "page_sizes cfg (up # ups) offset =
     (case up (resultLimit cfg) offset of
        Inr (Some page) \<Rightarrow>
          length (Results page)
            # page_sizes cfg ups (offset + int (length (Results page)))
      | _ \<Rightarrow> [])"

section \<open>Notions of the claims about the stores\<close>

text \<open>The members of the set under a key; no members when the key holds no set.\<close>

definition members :: "kvstore \<Rightarrow> string \<Rightarrow> string set" where
  "members st k = (case st k of Some (RSet xs) \<Rightarrow> set xs | _ \<Rightarrow> {})"

definition is_member :: "kvstore \<Rightarrow> string \<Rightarrow> string \<Rightarrow> bool" where
  "is_member st k m = (case st k of Some (RSet xs) \<Rightarrow> m \<in> set xs | _ \<Rightarrow> False)"

text \<open>
  The key of the set of all hashes is not itself a key of the identifiers of a hash: it
  does not begin with the prefix of these keys and a colon. The default flags are so.
\<close>

definition keys_apart :: "flags \<Rightarrow> bool" where
  "keys_apart cfg =
     (take (length (redisSeqSetPrefix cfg) + 1) (redisDedupSetKey cfg)
        \<noteq> redisSeqSetPrefix cfg @ '':'')"



section \<open>Notions of the claims about reconciliation\<close>

text \<open>The Redis key of the identifier set of a hit.\<close>

definition hit_key :: "string \<Rightarrow> 'f blastResult \<Rightarrow> string" where
  "hit_key prefix x = prefix @ '':'' @ SeqHash x"

text \<open>The members of the set under a key as Redis lists them; none when there is no set.\<close>

definition smembers :: "kvstore \<Rightarrow> string \<Rightarrow> string list" where
  "smembers st k = (case st k of Some (RSet ms) \<Rightarrow> ms | _ \<Rightarrow> [])"

text \<open>A hit with the identifiers of its hash, and nothing else of it changed.\<close>

definition fill_URIs :: "string \<Rightarrow> kvstore \<Rightarrow> 'f blastResult \<Rightarrow> 'f blastResult" where
  "fill_URIs prefix st x = x\<lparr>URIs := smembers st (hit_key prefix x)\<rparr>"

text \<open>A client with an empty pipeline and a working connection.\<close>

definition fresh_client :: client where
  "fresh_client = \<lparr>pending = [], completed = [], lastCritical = False, netdown = False\<rparr>"

text \<open>Two hits, the first for the hash of the scenario, the second for a hash Redis has not.\<close>

definition hit :: "string \<Rightarrow> int \<Rightarrow> nat blastResult" where
  "hit h score =
     \<lparr>SeqHash = h, BitScore = 0, Score = score, EValue = ''0'', QuerySeq = ''acgt'',
      Midline = ''||||'', HitSeq = ''acgt'', URIs = []\<rparr>"

definition two_hits :: "nat BlastResults" where
  "two_hits =
     \<lparr>Version = ''blastn'', Reference = [],
      Results_blast = [hit (Hash rec_u1) 4, hit ''0000'' 3],
      DBNum = 1, Query = [], Error = [], Duration = 0, NumResults = 0\<rparr>"






section \<open>Properties of the content hash\<close>

lemma length_be32: "length (be32 x) = 4"
  by (simp add: be32_def)

lemma length_sha1_Sum: "length (sha1_Sum m) = 20"
  by (simp add: sha1_Sum_def length_be32 split: prod.splits)

lemma length_sprintf_x: "length (sprintf_x bs) = 2 * length bs"
  by (induction bs) (simp_all add: sprintf_x_def hex_byte_def)




lemma length_Hash: "length (Hash s) = 40"
  by (simp add: Hash_def length_sprintf_x length_sha1_Sum)






























section \<open>Properties of the input/output operations\<close>

lemma WriteFile_True:
  "WriteFile f c w = (True, w') \<Longrightarrow>
     w' = w\<lparr>fastas := (fastas w)(f \<mapsto> c), faults := tl (faults w)\<rparr>"
  by (auto simp: WriteFile_def next_fault_def split: list.splits option.splits fault.splits)

lemma Cmd_ok:
  "Cmd c w = (r, w') \<Longrightarrow> Resp_Err r = None \<Longrightarrow>
     r = fst (redis_exec c (kv w)) \<and>
     w' = w\<lparr>kv := snd (redis_exec c (kv w)), faults := tl (faults w)\<rparr>"
  by (auto simp: Cmd_def next_fault_def split: list.splits option.splits fault.splits)

lemma WriteFile_kv: "WriteFile f c w = (b, w') \<Longrightarrow> kv w' = kv w"
  by (auto simp: WriteFile_def next_fault_def split: list.splits option.splits fault.splits)


lemma Cmd_fastas: "Cmd c w = (r, w') \<Longrightarrow> fastas w' = fastas w"
  by (auto simp: Cmd_def next_fault_def split: list.splits option.splits fault.splits)

lemma Cmd_kv:
  "Cmd c w = (r, w') \<Longrightarrow> kv w' = kv w \<or> kv w' = snd (redis_exec c (kv w))"
  by (auto simp: Cmd_def next_fault_def split: list.splits option.splits fault.splits)

lemma Resp_Err_SADD: "Resp_Err (fst (redis_exec (SADD k m) st)) = None \<longleftrightarrow> sadd_ok k st"
  by (auto simp: sadd_ok_def split: option.splits rval.splits)

text \<open>A record that was stored: what the three writes left.\<close>

lemma store_seq_Inr:
  assumes "store_seq cfg s w = Inr w'"
  shows "w' = \<lparr>fastas = (fastas w)(Hash s @ ''.fasta'' \<mapsto> fasta_file (Hash s) (Sequence s)),
               kv = sadd (redisSeqSetPrefix cfg @ '':'' @ Hash s) (URI s)
                      (sadd (redisDedupSetKey cfg) (Hash s) (kv w)),
               faults = tl (tl (tl (faults w)))\<rparr>"
    and "sadd_ok (redisDedupSetKey cfg) (kv w)"
    and "sadd_ok (redisSeqSetPrefix cfg @ '':'' @ Hash s)
           (sadd (redisDedupSetKey cfg) (Hash s) (kv w))"
proof -
  obtain ok w1 where 1:
    "WriteFile (Hash s @ ''.fasta'') (fasta_file (Hash s) (Sequence s)) w = (ok, w1)"
    by (cases "WriteFile (Hash s @ ''.fasta'') (fasta_file (Hash s) (Sequence s)) w")
  obtain r2 w2 where 2: "Cmd (SADD (redisDedupSetKey cfg) (Hash s)) w1 = (r2, w2)"
    by (cases "Cmd (SADD (redisDedupSetKey cfg) (Hash s)) w1")
  obtain r3 w3 where 3:
    "Cmd (SADD (redisSeqSetPrefix cfg @ '':'' @ Hash s) (URI s)) w2 = (r3, w3)"
    by (cases "Cmd (SADD (redisSeqSetPrefix cfg @ '':'' @ Hash s) (URI s)) w2")
  from assms 1 2 3 have ok: "ok" and e2: "Resp_Err r2 = None" and e3: "Resp_Err r3 = None"
    and w3: "w3 = w'"
    by (simp_all add: store_seq_def Let_def split: if_splits)
  from 1 ok have w1:
    "w1 = w\<lparr>fastas := (fastas w)(Hash s @ ''.fasta'' \<mapsto> fasta_file (Hash s) (Sequence s)),
            faults := tl (faults w)\<rparr>"
    using WriteFile_True [of _ _ w w1] by simp
  from Cmd_ok [OF 2 e2] have
    r2: "r2 = fst (redis_exec (SADD (redisDedupSetKey cfg) (Hash s)) (kv w1))" and
    w2: "w2 = w1\<lparr>kv := snd (redis_exec (SADD (redisDedupSetKey cfg) (Hash s)) (kv w1)),
                 faults := tl (faults w1)\<rparr>"
    by simp_all
  from Cmd_ok [OF 3 e3] have
    r3: "r3 = fst (redis_exec (SADD (redisSeqSetPrefix cfg @ '':'' @ Hash s) (URI s)) (kv w2))"
    and w3': "w3 = w2\<lparr>kv := snd (redis_exec
                 (SADD (redisSeqSetPrefix cfg @ '':'' @ Hash s) (URI s)) (kv w2)),
               faults := tl (faults w2)\<rparr>"
    by simp_all
  show "w' = \<lparr>fastas = (fastas w)(Hash s @ ''.fasta'' \<mapsto> fasta_file (Hash s) (Sequence s)),
               kv = sadd (redisSeqSetPrefix cfg @ '':'' @ Hash s) (URI s)
                      (sadd (redisDedupSetKey cfg) (Hash s) (kv w)),
               faults = tl (tl (tl (faults w)))\<rparr>"
    using w1 w2 w3' w3 by (simp add: sadd_def)
  show "sadd_ok (redisDedupSetKey cfg) (kv w)"
    using e2 r2 w1 Resp_Err_SADD [of "redisDedupSetKey cfg" "Hash s" "kv w"] by simp
  show "sadd_ok (redisSeqSetPrefix cfg @ '':'' @ Hash s)
          (sadd (redisDedupSetKey cfg) (Hash s) (kv w))"
    using e3 r3 w2 w1
      Resp_Err_SADD [of "redisSeqSetPrefix cfg @ '':'' @ Hash s" "URI s"
        "sadd (redisDedupSetKey cfg) (Hash s) (kv w)"]
    by (simp add: sadd_def)
qed

section \<open>The scenarios, evaluated\<close>

lemma Hash_rec_u2: "Hash rec_u2 = Hash rec_u1"
  by (simp add: Hash_def rec_u1_def rec_u2_def)

lemma Hash_rec_u1_not_0000: "Hash rec_u1 \<noteq> ''0000''"
  using length_Hash [of rec_u1] by auto

lemma Sequence_rec_u1: "Sequence rec_u1 = ''acgt''"
  by (simp add: rec_u1_def)

lemma Sequence_rec_u2: "Sequence rec_u2 = ''acgt''"
  by (simp add: rec_u2_def)

lemma URI_rec_u1: "URI rec_u1 = ''u1''"
  by (simp add: rec_u1_def)

lemma URI_rec_u2: "URI rec_u2 = ''u2''"
  by (simp add: rec_u2_def)

lemmas scenario_fields =
  Hash_rec_u2 Sequence_rec_u1 Sequence_rec_u2 URI_rec_u1 URI_rec_u2

lemma store_u1: "store_seq default_flags rec_u1 fresh_world = Inr world_u1"
  by (simp add: store_seq_def WriteFile_def Cmd_def next_fault_def default_flags_def
      fresh_world_def world_u1_def scenario_fields Let_def)

lemma store_u2: "store_seq default_flags rec_u2 world_u1 = Inr world_u12"
  by (simp add: store_seq_def WriteFile_def Cmd_def next_fault_def default_flags_def
      world_u1_def world_u12_def scenario_fields Let_def)

lemma process_scenario: "process default_flags [rec_u1, rec_u2] fresh_world = Inr world_u12"
  by (simp add: store_u1 store_u2)

lemma parse_scenario: "parse scenario_lib (Some scenario_page) = Inr [rec_u1, rec_u2]"
  by code_simp

section \<open>The files of a stored page\<close>

lemma process_fastas:
  "process cfg seqs w = Inr w' \<Longrightarrow> fastas w' = fastas w ++ page_files seqs"
proof (induction seqs arbitrary: w)
  case Nil
  then show ?case by simp
next
  case (Cons s ss)
  then obtain w1 where 1: "store_seq cfg s w = Inr w1" and 2: "process cfg ss w1 = Inr w'"
    by (auto split: sum.splits)
  have "fastas w1 = (fastas w)(Hash s @ ''.fasta'' \<mapsto> fasta_file (Hash s) (Sequence s))"
    using store_seq_Inr(1) [OF 1] by simp
  moreover have "fastas w' = fastas w1 ++ page_files ss"
    using Cons.IH [OF 2] .
  ultimately show ?case by simp
qed




section \<open>The format of the content hash and of the sequence file\<close>



section \<open>Lower-casing and parsing\<close>

lemma of_char_lowerASCII:
  "isUpper x \<Longrightarrow> (of_char (lowerASCII x) :: nat) = of_char x + 32"
  by (simp add: lowerASCII_def isUpper_def of_char_of)

lemma lowerASCII_idem: "lowerASCII (lowerASCII x) = lowerASCII x"
proof (cases "isUpper x")
  case True
  then have "\<not> isUpper (lowerASCII x)"
    using of_char_lowerASCII [OF True] by (simp add: isUpper_def)
  then show ?thesis by (simp add: lowerASCII_def)
next
  case False
  then show ?thesis by (simp add: lowerASCII_def)
qed

lemma same_letter_lower: "same_letter x y \<Longrightarrow> lowerASCII x = lowerASCII y"
  unfolding same_letter_def
  by (metis lowerASCII_idem)

lemma differ_only_in_case_lower:
  "differ_only_in_case a b \<Longrightarrow> map lowerASCII a = map lowerASCII b"
  unfolding differ_only_in_case_def
  by (induction a b rule: list_all2_induct) (simp_all add: same_letter_lower)

lemma ToLower_ASCII: "list_all isASCII s \<Longrightarrow> ToLower lib s = map lowerASCII s"
proof -
  assume a: "list_all isASCII s"
  have "\<not> list_ex isUpper s \<Longrightarrow> map lowerASCII s = s"
    by (induction s) (simp_all add: lowerASCII_def)
  with a show ?thesis by (simp add: ToLower_def)
qed

lemma parse_results_ok:
  "list_all (\<lambda>r. timeParse lib (getValue r ''created'') \<noteq> None) rs \<Longrightarrow>
     parse_results lib rs = Inr (map (to_sequence lib) rs)"
  by (induction rs) (auto simp: to_sequence_def)

lemma parse_results_Inr:
  "parse_results lib rs = Inr ss \<Longrightarrow>
     list_all (\<lambda>r. timeParse lib (getValue r ''created'') \<noteq> None) rs \<and>
     ss = map (to_sequence lib) rs"
proof (induction rs arbitrary: ss)
  case Nil
  then show ?case by simp
next
  case (Cons r rs)
  from Cons.prems obtain t ss' where t: "timeParse lib (getValue r ''created'') = Some t"
    and ss': "parse_results lib rs = Inr ss'"
    and ss: "ss = \<lparr>URI = getValue r ''uri'',
                    Sequence = ToLower lib (getValue r ''elements''), Created = t\<rparr> # ss'"
    by (auto split: option.splits sum.splits)
  from Cons.IH [OF ss'] t ss show ?case
    by (simp add: to_sequence_def)
qed

lemma getValue_missing: "\<not> has_binding r name \<Longrightarrow> getValue r name = []"
proof -
  have "\<not> list_ex (\<lambda>b. Name b = name) bs \<Longrightarrow> getValue_bindings bs name = []" for bs
    by (induction bs) simp_all
  then show "\<not> has_binding r name \<Longrightarrow> getValue r name = []"
    by (simp add: has_binding_def getValue_def)
qed

section \<open>Case-insensitive hashing\<close>

text \<open>
  Claim C5. Two raw sequences of ASCII bytes that differ in letter case only, parsed from
  any two records of any two pages, get the same normalized sequence (each byte
  lower-cased) and so the same content hash; the content hash of a record depends on its
  normalized sequence only.
\<close>

theorem case_insensitive_content_hash:
  assumes "list_all isASCII a" and "list_all isASCII b" and "differ_only_in_case a b"
    and "parse lib (Some p) = Inr ss" and "parse lib (Some q) = Inr ts"
    and "i < length (Results p)" and "j < length (Results q)"
    and "getValue (Results p ! i) ''elements'' = a"
    and "getValue (Results q ! j) ''elements'' = b"
  shows "Sequence (ss ! i) = map lowerASCII a \<and> Sequence (ts ! j) = map lowerASCII b \<and>
         Hash (ss ! i) = Hash (ts ! j) \<and>
         (\<forall>s t :: 't sequence. Sequence s = Sequence t \<longrightarrow> Hash s = Hash t)"
proof -
  from assms(4) have ss: "ss = map (to_sequence lib) (Results p)"
    using parse_results_Inr [of lib "Results p" ss] by (simp add: parse_def)
  from assms(5) have ts: "ts = map (to_sequence lib) (Results q)"
    using parse_results_Inr [of lib "Results q" ts] by (simp add: parse_def)
  have 1: "Sequence (ss ! i) = map lowerASCII a"
    using ss assms(1,6,8) by (simp add: to_sequence_def ToLower_ASCII)
  have 2: "Sequence (ts ! j) = map lowerASCII b"
    using ts assms(2,7,9) by (simp add: to_sequence_def ToLower_ASCII)
  have 3: "Sequence (ss ! i) = Sequence (ts ! j)"
    using 1 2 differ_only_in_case_lower [OF assms(3)] by simp
  have 4: "\<forall>s t :: 't sequence. Sequence s = Sequence t \<longrightarrow> Hash s = Hash t"
    by (simp add: Hash_def)
  from 1 2 3 4 show ?thesis by (simp add: Hash_def)
qed


theorem case_insensitive_content_hash_witness:
  "list_all isASCII ''ACGT'' \<and> list_all isASCII ''acgt'' \<and>
   differ_only_in_case ''ACGT'' ''acgt'' \<and>
   parse scenario_lib (Some scenario_page) = Inr [rec_u1, rec_u2] \<and>
   getValue (Results scenario_page ! 0) ''elements'' = ''ACGT'' \<and>
   getValue (Results scenario_page ! 1) ''elements'' = ''acgt'' \<and>
   Sequence ([rec_u1, rec_u2] ! 0) = map lowerASCII ''ACGT'' \<and>
   Hash ([rec_u1, rec_u2] ! 0) = Hash ([rec_u1, rec_u2] ! 1)"
proof -
  have 1: "list_all isASCII ''ACGT''" and 2: "list_all isASCII ''acgt''"
    and 3: "differ_only_in_case ''ACGT'' ''acgt''"
    by code_simp+
  have 4: "parse scenario_lib (Some scenario_page) = Inr [rec_u1, rec_u2]"
    by (rule parse_scenario)
  have 5: "0 < length (Results scenario_page)" and 6: "1 < length (Results scenario_page)"
    by (simp_all add: scenario_page_def)
  have 7: "getValue (Results scenario_page ! 0) ''elements'' = ''ACGT''"
    and 8: "getValue (Results scenario_page ! 1) ''elements'' = ''acgt''"
    by (simp_all add: scenario_page_def mk_result_def getValue_def)
  from case_insensitive_content_hash [OF 1 2 3 4 4 5 6 7 8]
  have "Sequence ([rec_u1, rec_u2] ! 0) = map lowerASCII ''ACGT''"
    and "Hash ([rec_u1, rec_u2] ! 0) = Hash ([rec_u1, rec_u2] ! 1)"
    by blast+
  with 1 2 3 4 7 8 show ?thesis
    by blast
qed

section \<open>Records with a missing field\<close>

lemma parse_results_Inl:
  "parse_results lib rs = Inl e \<Longrightarrow>
     \<exists>r \<in> set rs. e = CouldntParseTime (getValue r ''created'') \<and>
        timeParse lib (getValue r ''created'') = None"
  by (induction rs) (auto split: option.splits sum.splits)

lemma parse_results_bad:
  "r \<in> set rs \<Longrightarrow> timeParse lib (getValue r ''created'') = None \<Longrightarrow>
     \<exists>e. parse_results lib rs = Inl e"
  by (induction rs) (auto split: option.splits sum.splits)

lemma parse_nameless: "parse scenario_lib (Some nameless_page) = Inr [rec_nameless]"
  by code_simp

lemma nameless_no_uri: "has_binding (hd (Results nameless_page)) ''uri'' = False"
  by code_simp

lemma Sequence_rec_nameless: "Sequence rec_nameless = ''acgt''"
  by (simp add: rec_nameless_def)

lemma URI_rec_nameless: "URI rec_nameless = []"
  by (simp add: rec_nameless_def)

lemma process_nameless: "process default_flags [rec_nameless] fresh_world = Inr world_nameless"
  by (simp add: store_seq_def WriteFile_def Cmd_def next_fault_def default_flags_def
      fresh_world_def world_nameless_def Sequence_rec_nameless URI_rec_nameless Let_def)

lemma ids_nameless:
  "identifiersFor ''sequence'' (kv world_nameless) (Hash rec_nameless) = {[]}"
  by (simp add: identifiersFor_def world_nameless_def)

lemma parse_undated: "parse scenario_lib (Some undated_page) = Inl (CouldntParseTime [])"
  by code_simp

text \<open>
  Claim C2, as stated, fails: the record of \<open>nameless_page\<close> has no identifier, and it is
  parsed (with the empty identifier) and stored, the empty string entering the identifier
  set of its content hash.
\<close>

theorem missing_identifier_counterexample:
  "has_binding (hd (Results nameless_page)) ''uri'' = False \<and>
   parse scenario_lib (Some nameless_page) = Inr [rec_nameless] \<and>
   URI rec_nameless = [] \<and>
   process default_flags [rec_nameless] fresh_world = Inr world_nameless \<and>
   identifiersFor ''sequence'' (kv world_nameless) (Hash rec_nameless) = {[]}"
  using nameless_no_uri parse_nameless URI_rec_nameless process_nameless ids_nameless
  by blast

text \<open>
  Claim C2, amended. A page with a record that has no timestamp is a fatal error of
  \<open>parse\<close> for the whole page (the library does not parse the empty string as a time),
  and the cycle ends with the world as it was: nothing of the page is stored and the
  cursor is not advanced. A page all of whose timestamps parse is parsed record by record,
  and a record with no identifier, or with no sequence, gets the empty string there.
\<close>

theorem missing_timestamp_is_fatal:
  "(timeParse lib [] = None \<and> r \<in> set (Results page) \<and> \<not> has_binding r ''created'' \<longrightarrow>
      (\<exists>e. parse lib (Some page) = Inl e) \<and>
      (up (resultLimit cfg) offset = Inr (Some page) \<longrightarrow>
         (\<exists>e. cycle lib cfg up offset w = Inl (e, w)))) \<and>
   (list_all (\<lambda>r. timeParse lib (getValue r ''created'') \<noteq> None) (Results page) \<longrightarrow>
      parse lib (Some page) = Inr (map (to_sequence lib) (Results page))) \<and>
   (\<not> has_binding r ''uri'' \<longrightarrow> URI (to_sequence lib r) = []) \<and>
   (\<not> has_binding r ''elements'' \<longrightarrow> Sequence (to_sequence lib r) = [])"
proof (intro conjI impI)
  assume a: "timeParse lib [] = None \<and> r \<in> set (Results page) \<and> \<not> has_binding r ''created''"
  then have "timeParse lib (getValue r ''created'') = None"
    by (simp add: getValue_missing)
  with a obtain e where e: "parse_results lib (Results page) = Inl e"
    using parse_results_bad by blast
  then show "\<exists>e. parse lib (Some page) = Inl e"
    by (simp add: parse_def)
  assume "up (resultLimit cfg) offset = Inr (Some page)"
  with e show "\<exists>e. cycle lib cfg up offset w = Inl (e, w)"
    by (simp add: cycle_def fetch_def parse_def)
next
  assume "list_all (\<lambda>r. timeParse lib (getValue r ''created'') \<noteq> None) (Results page)"
  then show "parse lib (Some page) = Inr (map (to_sequence lib) (Results page))"
    by (simp add: parse_def parse_results_ok)
next
  assume "\<not> has_binding r ''uri''"
  then show "URI (to_sequence lib r) = []"
    by (simp add: to_sequence_def getValue_missing)
next
  assume "\<not> has_binding r ''elements''"
  then show "Sequence (to_sequence lib r) = []"
    by (simp add: to_sequence_def getValue_missing ToLower_def)
qed


theorem missing_timestamp_is_fatal_witness:
  "timeParse scenario_lib [] = None \<and>
   hd (Results undated_page) \<in> set (Results undated_page) \<and>
   has_binding (hd (Results undated_page)) ''created'' = False \<and>
   serving undated_page (resultLimit default_flags) 0 = Inr (Some undated_page) \<and>
   parse scenario_lib (Some undated_page) = Inl (CouldntParseTime []) \<and>
   cycle scenario_lib default_flags (serving undated_page) 0 world_started =
     Inl (CouldntParseTime [], world_started) \<and>
   has_binding (hd (Results nameless_page)) ''uri'' = False \<and>
   parse scenario_lib (Some nameless_page) =
     Inr (map (to_sequence scenario_lib) (Results nameless_page)) \<and>
   URI (to_sequence scenario_lib (hd (Results nameless_page))) = []"
proof -
  have 1: "timeParse scenario_lib [] = None"
    by code_simp
  have 2: "hd (Results undated_page) \<in> set (Results undated_page)"
    by (simp add: undated_page_def)
  have 3: "has_binding (hd (Results undated_page)) ''created'' = False"
    by code_simp
  have 4: "serving undated_page (resultLimit default_flags) 0 = Inr (Some undated_page)"
    by (simp add: serving_def)
  note a = missing_timestamp_is_fatal
    [of scenario_lib "hd (Results undated_page)" undated_page "serving undated_page"
        default_flags 0 world_started]
  from a 1 2 3 4 obtain e where
    "cycle scenario_lib default_flags (serving undated_page) 0 world_started =
       Inl (e, world_started)"
    by blast
  moreover have "cycle scenario_lib default_flags (serving undated_page) 0 world_started =
       Inl (CouldntParseTime [], snd (CouldntParseTime [], world_started))"
    by (simp add: cycle_def fetch_def serving_def parse_undated)
  ultimately have 5:
    "cycle scenario_lib default_flags (serving undated_page) 0 world_started =
       Inl (CouldntParseTime [], world_started)"
    by simp
  have 6: "list_all (\<lambda>r. timeParse scenario_lib (getValue r ''created'') \<noteq> None)
             (Results nameless_page)"
    by code_simp
  note b = missing_timestamp_is_fatal
    [of scenario_lib "hd (Results nameless_page)" nameless_page "serving undated_page"
        default_flags 0 world_started]
  from b 6 have 7: "parse scenario_lib (Some nameless_page) =
     Inr (map (to_sequence scenario_lib) (Results nameless_page))"
    by blast
  from b nameless_no_uri
  have 8: "URI (to_sequence scenario_lib (hd (Results nameless_page))) = []"
    by blast
  from 1 2 3 4 5 7 8 parse_undated nameless_no_uri show ?thesis
    by blast
qed

section \<open>Start-up\<close>

lemma startup_absent:
  assumes "kv w (redisOffsetKey cfg) = None" and "works 2 w"
  shows "startup cfg w =
           Inr (0, w\<lparr>kv := (kv w)(redisOffsetKey cfg \<mapsto> RInt 0), faults := drop 2 (faults w)\<rparr>)"
  using assms
  by (cases "faults w"; cases "tl (faults w)")
     (auto simp: startup_def Cmd_def next_fault_def works_def)

lemma startup_present:
  assumes "kv w (redisOffsetKey cfg) = Some (RInt n)" and "works 1 w"
  shows "startup cfg w = Inr (n, w\<lparr>faults := drop 1 (faults w)\<rparr>)"
  using assms
  by (cases "faults w") (auto simp: startup_def Cmd_def next_fault_def works_def)

lemma startup_fresh: "startup default_flags fresh_world = Inr (0, world_started)"
  using startup_absent [of fresh_world default_flags]
  by (simp add: fresh_world_def world_started_def default_flags_def works_def)

subsection \<open>A cycle, step by step\<close>

lemma cycle_step:
  assumes "up (resultLimit cfg) offset = Inr bytes" and "parse lib bytes = Inr seqs"
    and "process cfg seqs w = Inr w1"
    and "Cmd (INCRBY (redisOffsetKey cfg) (int (length seqs))) w1 = (Integer n, w2)"
  shows "cycle lib cfg up offset w =
           Inr (n, if int (length seqs) < resultLimit cfg then Hour * 4 else Second * 2, w2)"
  using assms by (simp add: cycle_def fetch_def)

lemma cycle_Inr:
  assumes "cycle lib cfg up offset w = Inr (offset', slept, w')"
  shows "\<exists>page seqs w1 r.
           up (resultLimit cfg) offset = Inr (Some page) \<and>
           parse lib (Some page) = Inr seqs \<and> length seqs = length (Results page) \<and>
           process cfg seqs w = Inr w1 \<and>
           Cmd (INCRBY (redisOffsetKey cfg) (int (length seqs))) w1 = (r, w') \<and>
           Resp_Int r = Inr offset' \<and>
           slept = (if int (length seqs) < resultLimit cfg then Hour * 4 else Second * 2)"
proof -
  from assms obtain bytes where b: "up (resultLimit cfg) offset = Inr bytes"
    by (auto simp: cycle_def fetch_def split: sum.splits)
  from assms b obtain seqs where s: "parse lib bytes = Inr seqs"
    by (auto simp: cycle_def fetch_def split: sum.splits)
  then obtain page where p: "bytes = Some page"
    by (auto simp: parse_def split: option.splits)
  from s p have l: "length seqs = length (Results page)"
    using parse_results_Inr [of lib "Results page" seqs] by (simp add: parse_def)
  from assms b s obtain w1 where w1: "process cfg seqs w = Inr w1"
    by (auto simp: cycle_def fetch_def split: sum.splits)
  obtain r w2 where c: "Cmd (INCRBY (redisOffsetKey cfg) (int (length seqs))) w1 = (r, w2)"
    by (cases "Cmd (INCRBY (redisOffsetKey cfg) (int (length seqs))) w1")
  from assms b s w1 c have "Resp_Int r = Inr offset'" and "w2 = w'"
    and "slept = (if int (length seqs) < resultLimit cfg then Hour * 4 else Second * 2)"
    by (auto simp: cycle_def fetch_def split: sum.splits)
  with b s p l w1 c show ?thesis by blast
qed

lemma process_started:
  assumes "redisDedupSetKey cfg = ''sequenceHashSet''" and "redisSeqSetPrefix cfg = ''sequence''"
  shows "process cfg [rec_u1, rec_u2] world_started =
     Inr \<lparr>fastas = [Hash rec_u1 @ ''.fasta'' \<mapsto> fasta_file (Hash rec_u1) ''acgt''],
      kv = [''sequenceoffset'' \<mapsto> RInt 0,
            ''sequenceHashSet'' \<mapsto> RSet [Hash rec_u1],
            ''sequence:'' @ Hash rec_u1 \<mapsto> RSet [''u1'', ''u2'']],
      faults = []\<rparr>"
  using assms
  by (simp add: store_seq_def WriteFile_def Cmd_def next_fault_def
      world_started_def scenario_fields Let_def)

lemma incrby_started:
  "Cmd (INCRBY ''sequenceoffset'' 2)
     \<lparr>fastas = [Hash rec_u1 @ ''.fasta'' \<mapsto> fasta_file (Hash rec_u1) ''acgt''],
      kv = [''sequenceoffset'' \<mapsto> RInt 0,
            ''sequenceHashSet'' \<mapsto> RSet [Hash rec_u1],
            ''sequence:'' @ Hash rec_u1 \<mapsto> RSet [''u1'', ''u2'']],
      faults = []\<rparr> = (Integer 2, world_cycled)"
proof -
  have "[''sequenceoffset'' \<mapsto> RInt 0,
            ''sequenceHashSet'' \<mapsto> RSet [Hash rec_u1],
            ''sequence:'' @ Hash rec_u1 \<mapsto> RSet [''u1'', ''u2''],
     ''sequenceoffset'' \<mapsto> RInt 2] = kv world_cycled"
    by (rule ext) (simp add: world_cycled_def)
  then show ?thesis
    by (simp add: Cmd_def next_fault_def fits64_def world_cycled_def)
qed

lemma cycle_scenario:
  assumes "redisOffsetKey cfg = ''sequenceoffset''"
    and "redisDedupSetKey cfg = ''sequenceHashSet''" and "redisSeqSetPrefix cfg = ''sequence''"
  shows "cycle scenario_lib cfg (serving scenario_page) 0 world_started =
     Inr (2, if 2 < resultLimit cfg then Hour * 4 else Second * 2, world_cycled)"
  using cycle_step [of "serving scenario_page" cfg 0 "Some scenario_page" scenario_lib
      "[rec_u1, rec_u2]" world_started _ 2 world_cycled]
    parse_scenario process_started [OF assms(2,3)] incrby_started assms(1)
  by (simp add: serving_def)


text \<open>
  Claim C10. With no value under the offset key, start-up sets the key to 0 in Redis and
  the offset of the first query is 0; with the integer \<open>n\<close> under the key, Redis is left
  as it is and the offset of the first query is \<open>n\<close>. (The two Redis commands, and the one,
  have to work: a failing command is fatal.)
\<close>

theorem startup_initialises_or_resumes:
  "(kv w (redisOffsetKey cfg) = None \<and> works 2 w \<longrightarrow>
      startup cfg w =
        Inr (0, w\<lparr>kv := (kv w)(redisOffsetKey cfg \<mapsto> RInt 0),
                  faults := drop 2 (faults w)\<rparr>)) \<and>
   (kv w (redisOffsetKey cfg) = Some (RInt n) \<and> works 1 w \<longrightarrow>
      startup cfg w = Inr (n, w\<lparr>faults := drop 1 (faults w)\<rparr>)) \<and>
   (startup cfg w = Inr (m, w') \<longrightarrow>
      main_slurper lib cfg ups w = harvest lib cfg ups m w')"
  using startup_absent [of w cfg] startup_present [of w cfg n]
  by (simp add: main_slurper_def)

theorem startup_initialises_or_resumes_witness:
  "kv fresh_world (redisOffsetKey default_flags) = None \<and> works 2 fresh_world \<and>
   startup default_flags fresh_world = Inr (0, world_started) \<and>
   kv world_cycled (redisOffsetKey default_flags) = Some (RInt 2) \<and> works 1 world_cycled \<and>
   startup default_flags world_cycled = Inr (2, world_cycled) \<and>
   main_slurper scenario_lib default_flags [serving scenario_page] fresh_world =
     Inr (2, world_cycled)"
proof -
  have 1: "kv fresh_world (redisOffsetKey default_flags) = None" "works 2 fresh_world"
    by (simp_all add: fresh_world_def works_def)
  have 2: "kv world_cycled (redisOffsetKey default_flags) = Some (RInt 2)"
    "works 1 world_cycled"
    by (simp_all add: world_cycled_def works_def default_flags_def)
  have 3: "world_cycled\<lparr>faults := drop 1 (faults world_cycled)\<rparr> = world_cycled"
    by (simp add: world_cycled_def)
  from startup_initialises_or_resumes
    [of world_cycled default_flags 2 2 world_cycled scenario_lib "[]"] 2 3
  have 4: "startup default_flags world_cycled = Inr (2, world_cycled)"
    by simp
  have 5: "harvest scenario_lib default_flags [serving scenario_page] 0 world_started =
     Inr (2, world_cycled)"
    using cycle_scenario [of default_flags] by (simp add: default_flags_def)
  from startup_initialises_or_resumes
    [of fresh_world default_flags 0 0 world_started scenario_lib "[serving scenario_page]"]
    startup_fresh 5
  have 6: "main_slurper scenario_lib default_flags [serving scenario_page] fresh_world =
     Inr (2, world_cycled)"
    by simp
  from 1 2 4 6 startup_fresh show ?thesis
    by blast
qed

section \<open>The delay between two cycles\<close>

text \<open>
  Claim C8. A cycle that comes to its end sleeps four hours when the page had fewer
  records than the result limit, and two seconds otherwise (in nanoseconds, the unit of
  \<^verbatim>\<open>time.Duration\<close>).
\<close>

theorem backoff_policy:
  assumes "cycle lib cfg up offset w = Inr (offset', slept, w')"
  shows "\<exists>page. up (resultLimit cfg) offset = Inr (Some page) \<and>
           slept = (if int (length (Results page)) < resultLimit cfg
                    then 4 * 3600 * 1000000000 else 2 * 1000000000)"
  using cycle_Inr [OF assms] by (auto simp: Hour_def Second_def)

theorem backoff_policy_witness:
  "cycle scenario_lib default_flags (serving scenario_page) 0 world_started =
     Inr (2, 14400000000000, world_cycled) \<and>
   cycle scenario_lib (default_flags\<lparr>resultLimit := 2\<rparr>) (serving scenario_page) 0
     world_started = Inr (2, 2000000000, world_cycled) \<and>
   length (Results scenario_page) = 2"
proof -
  have 1: "cycle scenario_lib default_flags (serving scenario_page) 0 world_started =
     Inr (2, Hour * 4, world_cycled)"
    using cycle_scenario [of default_flags] by (simp add: default_flags_def)
  have 2: "cycle scenario_lib (default_flags\<lparr>resultLimit := 2\<rparr>) (serving scenario_page) 0
     world_started = Inr (2, Second * 2, world_cycled)"
    using cycle_scenario [of "default_flags\<lparr>resultLimit := 2\<rparr>"]
    by (simp add: default_flags_def)
  have 3: "length (Results scenario_page) = 2"
    by (simp add: scenario_page_def)
  from backoff_policy [OF 1] 3 have "Hour * 4 = 14400000000000"
    by (simp add: serving_def default_flags_def)
  moreover from backoff_policy [OF 2] 3 have "Second * 2 = 2000000000"
    by (simp add: serving_def default_flags_def)
  ultimately show ?thesis using 1 2 3 by simp
qed

section \<open>The cursor\<close>

lemma SADD_keeps_int:
  "st k = Some (RInt c) \<Longrightarrow> snd (redis_exec (SADD k' m) st) k = Some (RInt c)"
  by (auto split: option.splits rval.splits)

lemma Cmd_SADD_keeps_int:
  "kv w k = Some (RInt c) \<Longrightarrow> Cmd (SADD k' m) w = (r, w') \<Longrightarrow> kv w' k = Some (RInt c)"
  using Cmd_kv [of "SADD k' m" w r w'] SADD_keeps_int [of "kv w" k c k' m] by auto

lemma store_seq_outcome:
  "\<exists>ok w1 r2 w2 r3 w3.
     WriteFile (Hash s @ ''.fasta'') (fasta_file (Hash s) (Sequence s)) w = (ok, w1) \<and>
     Cmd (SADD (redisDedupSetKey cfg) (Hash s)) w1 = (r2, w2) \<and>
     Cmd (SADD (redisSeqSetPrefix cfg @ '':'' @ Hash s) (URI s)) w2 = (r3, w3) \<and>
     after_store (store_seq cfg s w) \<in> {w1, w2, w3}"
proof -
  obtain ok w1 where 1:
    "WriteFile (Hash s @ ''.fasta'') (fasta_file (Hash s) (Sequence s)) w = (ok, w1)"
    by (cases "WriteFile (Hash s @ ''.fasta'') (fasta_file (Hash s) (Sequence s)) w")
  obtain r2 w2 where 2: "Cmd (SADD (redisDedupSetKey cfg) (Hash s)) w1 = (r2, w2)"
    by (cases "Cmd (SADD (redisDedupSetKey cfg) (Hash s)) w1")
  obtain r3 w3 where 3:
    "Cmd (SADD (redisSeqSetPrefix cfg @ '':'' @ Hash s) (URI s)) w2 = (r3, w3)"
    by (cases "Cmd (SADD (redisSeqSetPrefix cfg @ '':'' @ Hash s) (URI s)) w2")
  from 1 2 3 have "after_store (store_seq cfg s w) \<in> {w1, w2, w3}"
    by (simp add: store_seq_def Let_def after_store_def)
  with 1 2 3 show ?thesis by blast
qed

lemma store_seq_keeps_int:
  assumes "kv w k = Some (RInt c)"
  shows "kv (after_store (store_seq cfg s w)) k = Some (RInt c)"
proof -
  from store_seq_outcome [of s w cfg] obtain ok w1 r2 w2 r3 w3 where
    1: "WriteFile (Hash s @ ''.fasta'') (fasta_file (Hash s) (Sequence s)) w = (ok, w1)" and
    2: "Cmd (SADD (redisDedupSetKey cfg) (Hash s)) w1 = (r2, w2)" and
    3: "Cmd (SADD (redisSeqSetPrefix cfg @ '':'' @ Hash s) (URI s)) w2 = (r3, w3)" and
    4: "after_store (store_seq cfg s w) \<in> {w1, w2, w3}"
    by blast
  have a: "kv w1 k = Some (RInt c)" using WriteFile_kv [OF 1] assms by simp
  have b: "kv w2 k = Some (RInt c)" using Cmd_SADD_keeps_int [OF a 2] .
  have c: "kv w3 k = Some (RInt c)" using Cmd_SADD_keeps_int [OF b 3] .
  from 4 a b c show ?thesis by auto
qed

lemma process_keeps_int:
  "kv w k = Some (RInt c) \<Longrightarrow> kv (after_store (process cfg seqs w)) k = Some (RInt c)"
proof (induction seqs arbitrary: w)
  case Nil
  then show ?case by (simp add: after_store_def)
next
  case (Cons s ss)
  show ?case
  proof (cases "store_seq cfg s w")
    case (Inl ew)
    with store_seq_keeps_int [OF Cons.prems, of cfg s] show ?thesis
      by simp
  next
    case (Inr w1)
    with store_seq_keeps_int [OF Cons.prems, of cfg s] have "kv w1 k = Some (RInt c)"
      by (simp add: after_store_def)
    from Cons.IH [OF this] Inr show ?thesis by simp
  qed
qed

lemma Cursor_iff: "Cursor cfg w = Some c \<longleftrightarrow> kv w (redisOffsetKey cfg) = Some (RInt c)"
  by (auto simp: Cursor_def split: option.splits rval.splits)

lemma Cmd_INCRBY:
  assumes "kv w k = Some (RInt c)" and "Cmd (INCRBY k n) w = (r, w')"
  shows "(kv w' k = Some (RInt c) \<or> kv w' k = Some (RInt (c + n))) \<and>
         (\<forall>off. Resp_Int r = Inr off \<longrightarrow> off = c + n \<and> kv w' k = Some (RInt (c + n)))"
  using assms
  by (auto simp: Cmd_def next_fault_def split: list.splits option.splits fault.splits if_splits)


lemma store_seq_Inl_tag: "store_seq cfg s w = Inl (e, w') \<Longrightarrow> e \<noteq> CouldntUpdateOffset"
  by (auto simp: store_seq_def Let_def split: prod.splits if_splits)

lemma process_Inl_tag: "process cfg seqs w = Inl (e, w') \<Longrightarrow> e \<noteq> CouldntUpdateOffset"
  by (induction seqs arbitrary: w) (auto split: sum.splits dest: store_seq_Inl_tag)

lemma parse_Inl_tag: "parse lib bytes = Inl e \<Longrightarrow> e \<noteq> CouldntUpdateOffset"
  using parse_results_Inl [of lib _ e] by (auto simp: parse_def split: option.splits)

lemma fetch_Inl_tag: "fetch cfg up off0 = Inl e \<Longrightarrow> e \<noteq> CouldntUpdateOffset"
  by (auto simp: fetch_def split: sum.splits)

text \<open>How a cycle can end in \<^verbatim>\<open>log.Fatal\<close>.\<close>

lemma cycle_Inl_cases:
  assumes "cycle (lib :: 't stdlib) cfg up off0 w = Inl (e, w1)"
  shows "(e \<noteq> CouldntUpdateOffset \<and>
            (w1 = w \<or> (\<exists>seqs :: 't sequence list. process cfg seqs w = Inl (e, w1)))) \<or>
         (e = CouldntUpdateOffset \<and>
            (\<exists>(seqs :: 't sequence list) w2 r. process cfg seqs w = Inr w2 \<and>
               Cmd (INCRBY (redisOffsetKey cfg) (int (length seqs))) w2 = (r, w1)))"
proof (cases "fetch cfg up off0")
  case (Inl f)
  with assms fetch_Inl_tag [of cfg up off0 e] show ?thesis by (simp add: cycle_def)
next
  case (Inr bytes)
  note b = this
  show ?thesis
  proof (cases "parse lib bytes")
    case (Inl f)
    with assms b parse_Inl_tag [of lib bytes e] show ?thesis by (simp add: cycle_def)
  next
    case (Inr seqs)
    note s = this
    show ?thesis
    proof (cases "process cfg seqs w")
      case (Inl ew)
      with assms b s process_Inl_tag [of cfg seqs w e w1] show ?thesis
        by (auto simp: cycle_def)
    next
      case (Inr w2)
      obtain r w3 where c: "Cmd (INCRBY (redisOffsetKey cfg) (int (length seqs))) w2 = (r, w3)"
        by (cases "Cmd (INCRBY (redisOffsetKey cfg) (int (length seqs))) w2")
      with assms b s Inr have "e = CouldntUpdateOffset" and "w3 = w1"
        by (auto simp: cycle_def split: sum.splits)
      with Inr c show ?thesis by blast
    qed
  qed
qed

lemma cycle_fails_early:
  assumes "Cursor cfg w = Some c" and "cycle (lib :: 't stdlib) cfg up off0 w = Inl (e, w1)"
    and "e \<noteq> CouldntUpdateOffset"
  shows "Cursor cfg w1 = Some c"
proof -
  from cycle_Inl_cases [OF assms(2)] assms(3)
  consider "w1 = w" | seqs :: "'t sequence list" where "process cfg seqs w = Inl (e, w1)"
    by blast
  then show ?thesis
  proof cases
    case 1
    with assms(1) show ?thesis by simp
  next
    case 2
    with process_keeps_int [of w "redisOffsetKey cfg" c cfg seqs] assms(1)
    show ?thesis by (simp add: Cursor_iff after_store_def)
  qed
qed

lemma cycle_succeeds:
  assumes "Cursor cfg w = Some c" and "cycle lib cfg up off0 w = Inr (off1, slept, w1)"
  shows "\<exists>page seqs w2.
           up (resultLimit cfg) off0 = Inr (Some page) \<and> parse lib (Some page) = Inr seqs \<and>
           process cfg seqs w = Inr w2 \<and> Cursor cfg w2 = Some c \<and>
           Cursor cfg w1 = Some (c + int (length (Results page))) \<and>
           off1 = c + int (length (Results page))"
proof -
  from cycle_Inr [OF assms(2)] obtain page seqs w2 r where
    1: "up (resultLimit cfg) off0 = Inr (Some page)" and
    2: "parse lib (Some page) = Inr seqs" and
    3: "length seqs = length (Results page)" and
    4: "process cfg seqs w = Inr w2" and
    5: "Cmd (INCRBY (redisOffsetKey cfg) (int (length seqs))) w2 = (r, w1)" and
    6: "Resp_Int r = Inr off1"
    by blast
  have k: "kv w2 (redisOffsetKey cfg) = Some (RInt c)"
    using process_keeps_int [of w "redisOffsetKey cfg" c cfg seqs] assms(1) 4
    by (simp add: Cursor_iff after_store_def)
  from Cmd_INCRBY [OF k 5] 6 3
  have "off1 = c + int (length (Results page))"
    and "kv w1 (redisOffsetKey cfg) = Some (RInt (c + int (length (Results page))))"
    by simp_all
  with 1 2 4 k show ?thesis by (auto simp: Cursor_iff)
qed

lemma cycle_never_decreases:
  assumes "Cursor cfg w = Some c"
  shows "\<exists>c'. Cursor cfg (after_cycle (cycle (lib :: 't stdlib) cfg up off0 w)) = Some c' \<and>
           c \<le> c'"
proof (cases "cycle lib cfg up off0 w")
  case (Inr x)
  then obtain off1 slept w1 where x: "cycle lib cfg up off0 w = Inr (off1, slept, w1)"
    by (cases x) auto
  from cycle_succeeds [OF assms x] x show ?thesis
    by (auto simp: after_cycle_def)
next
  case (Inl x)
  then obtain e w1 where x: "cycle lib cfg up off0 w = Inl (e, w1)"
    by (cases x) auto
  show ?thesis
  proof (cases "e = CouldntUpdateOffset")
    case False
    from cycle_fails_early [OF assms x False] x show ?thesis
      by (simp add: after_cycle_def)
  next
    case True
    with cycle_Inl_cases [OF x] obtain seqs :: "'t sequence list" and w2 r where
      4: "process cfg seqs w = Inr w2" and
      5: "Cmd (INCRBY (redisOffsetKey cfg) (int (length seqs))) w2 = (r, w1)"
      by blast
    have k: "kv w2 (redisOffsetKey cfg) = Some (RInt c)"
      using process_keeps_int [of w "redisOffsetKey cfg" c cfg seqs] assms(1) 4
      by (simp add: Cursor_iff after_store_def)
    from Cmd_INCRBY [OF k 5] x show ?thesis
      by (auto simp: after_cycle_def Cursor_iff)
  qed
qed

lemma harvest_never_decreases:
  "Cursor cfg w = Some c \<Longrightarrow>
     \<exists>c'. Cursor cfg (after_harvest (harvest lib cfg ups off0 w)) = Some c' \<and> c \<le> c'"
proof (induction ups arbitrary: w c off0)
  case Nil
  then show ?case by (simp add: after_harvest_def)
next
  case (Cons up ups)
  from cycle_never_decreases [OF Cons.prems, of lib up off0] obtain c1 where
    c1: "Cursor cfg (after_cycle (cycle lib cfg up off0 w)) = Some c1" "c \<le> c1"
    by blast
  show ?case
  proof (cases "cycle lib cfg up off0 w")
    case (Inl x)
    with c1 show ?thesis
      by (cases x) (auto simp: after_cycle_def after_harvest_def)
  next
    case (Inr x)
    then obtain off1 slept w1 where x: "cycle lib cfg up off0 w = Inr (off1, slept, w1)"
      by (cases x) auto
    with c1 have "Cursor cfg w1 = Some c1" by (simp add: after_cycle_def)
    from Cons.IH [OF this, of off1] obtain c' where
      "Cursor cfg (after_harvest (harvest lib cfg ups off1 w1)) = Some c'" "c1 \<le> c'"
      by blast
    with x c1(2) show ?thesis by auto
  qed
qed

lemma harvest_sum:
  "Cursor cfg w = Some c \<Longrightarrow> harvest lib cfg ups c w = Inr (off, w') \<Longrightarrow>
     off = c + int (sum_list (page_sizes cfg ups c)) \<and>
     Cursor cfg w' = Some (c + int (sum_list (page_sizes cfg ups c))) \<and>
     length (page_sizes cfg ups c) = length ups"
proof (induction ups arbitrary: w c)
  case Nil
  then show ?case by simp
next
  case (Cons up ups)
  from Cons.prems(2) obtain off1 slept w1 where
    x: "cycle lib cfg up c w = Inr (off1, slept, w1)" and
    h: "harvest lib cfg ups off1 w1 = Inr (off, w')"
    by (auto split: sum.splits)
  from cycle_succeeds [OF Cons.prems(1) x] obtain page where
    1: "up (resultLimit cfg) c = Inr (Some page)" and
    2: "Cursor cfg w1 = Some (c + int (length (Results page)))" and
    3: "off1 = c + int (length (Results page))"
    by blast
  from Cons.IH [OF 2] h 3 have
    "off = c + int (length (Results page))
       + int (sum_list (page_sizes cfg ups (c + int (length (Results page)))))"
    "Cursor cfg w' = Some (c + int (length (Results page))
       + int (sum_list (page_sizes cfg ups (c + int (length (Results page))))))"
    "length (page_sizes cfg ups (c + int (length (Results page)))) = length ups"
    by simp_all
  with 1 show ?case by simp
qed

lemma default_flags_fields:
  "resultLimit default_flags = 100"
  "redisOffsetKey default_flags = ''sequenceoffset''"
  "redisDedupSetKey default_flags = ''sequenceHashSet''"
  "redisSeqSetPrefix default_flags = ''sequence''"
  by (simp_all add: default_flags_def)

lemma process_faulty:
  "process default_flags [rec_u1, rec_u2] world_faulty = Inl (CouldntAddHash, world_crashed)"
  by (simp add: store_seq_def WriteFile_def Cmd_def next_fault_def default_flags_fields
      world_faulty_def world_crashed_def scenario_fields Let_def)

lemma cycle_process_fails:
  assumes "up (resultLimit cfg) offset = Inr bytes" and "parse lib bytes = Inr seqs"
    and "process cfg seqs w = Inl ew"
  shows "cycle lib cfg up offset w = Inl ew"
  using assms by (simp add: cycle_def fetch_def)

lemma cycle_faulty:
  "cycle scenario_lib default_flags (serving scenario_page) 0 world_faulty =
     Inl (CouldntAddHash, world_crashed)"
  using cycle_process_fails [of "serving scenario_page" default_flags 0 "Some scenario_page"
      scenario_lib "[rec_u1, rec_u2]" world_faulty "(CouldntAddHash, world_crashed)"]
    parse_scenario process_faulty
  by (simp add: serving_def)

text \<open>
  Claim C3. From a world whose cursor is \<open>c\<close> (0 after the first start-up): a run of
  cycles that all succeed leaves the cursor at \<open>c\<close> plus the sum of the sizes of the
  pages; whatever a run does, fatal or not, the cursor does not decrease; a cycle that
  ends in a \<^verbatim>\<open>log.Fatal\<close> other than that of the increment leaves the cursor at \<open>c\<close>; and
  in a cycle that succeeds the page was parsed and stored with the cursor still at \<open>c\<close>
  before the cursor moved on by the size of the page.
\<close>

theorem cursor_advances_by_page_sizes:
  assumes "Cursor cfg w = Some c"
  shows "(harvest lib cfg ups c w = Inr (off, w') \<longrightarrow>
            off = c + int (sum_list (page_sizes cfg ups c)) \<and>
            Cursor cfg w' = Some (c + int (sum_list (page_sizes cfg ups c))) \<and>
            length (page_sizes cfg ups c) = length ups) \<and>
         (\<exists>c'. Cursor cfg (after_harvest (harvest lib cfg ups off0 w)) = Some c' \<and> c \<le> c') \<and>
         (cycle lib cfg up off0 w = Inl (e, w1) \<and> e \<noteq> CouldntUpdateOffset \<longrightarrow>
            Cursor cfg w1 = Some c) \<and>
         (cycle lib cfg up off0 w = Inr (off1, slept, w1) \<longrightarrow>
            (\<exists>page seqs w2.
               up (resultLimit cfg) off0 = Inr (Some page) \<and>
               parse lib (Some page) = Inr seqs \<and>
               process cfg seqs w = Inr w2 \<and> Cursor cfg w2 = Some c \<and>
               Cursor cfg w1 = Some (c + int (length (Results page))) \<and>
               off1 = c + int (length (Results page))))"
proof (intro conjI impI)
  assume "harvest lib cfg ups c w = Inr (off, w')"
  from harvest_sum [OF assms this]
  show "off = c + int (sum_list (page_sizes cfg ups c))"
    and "Cursor cfg w' = Some (c + int (sum_list (page_sizes cfg ups c)))"
    and "length (page_sizes cfg ups c) = length ups"
    by simp_all
next
  show "\<exists>c'. Cursor cfg (after_harvest (harvest lib cfg ups off0 w)) = Some c' \<and> c \<le> c'"
    by (rule harvest_never_decreases [OF assms])
next
  assume "cycle lib cfg up off0 w = Inl (e, w1) \<and> e \<noteq> CouldntUpdateOffset"
  then show "Cursor cfg w1 = Some c"
    using cycle_fails_early [OF assms] by blast
next
  assume "cycle lib cfg up off0 w = Inr (off1, slept, w1)"
  then show "\<exists>page seqs w2.
               up (resultLimit cfg) off0 = Inr (Some page) \<and>
               parse lib (Some page) = Inr seqs \<and>
               process cfg seqs w = Inr w2 \<and> Cursor cfg w2 = Some c \<and>
               Cursor cfg w1 = Some (c + int (length (Results page))) \<and>
               off1 = c + int (length (Results page))"
    by (rule cycle_succeeds [OF assms])
qed


theorem cursor_advances_by_page_sizes_witness:
  "Cursor default_flags world_started = Some 0 \<and>
   harvest scenario_lib default_flags [serving scenario_page] 0 world_started =
     Inr (2, world_cycled) \<and>
   page_sizes default_flags [serving scenario_page] 0 = [2] \<and>
   Cursor default_flags world_cycled = Some 2 \<and>
   Cursor default_flags world_faulty = Some 0 \<and>
   cycle scenario_lib default_flags (serving scenario_page) 0 world_faulty =
     Inl (CouldntAddHash, world_crashed) \<and>
   Cursor default_flags world_crashed = Some 0"
proof -
  have 1: "Cursor default_flags world_started = Some 0"
    by (simp add: Cursor_def world_started_def default_flags_fields)
  have 2: "harvest scenario_lib default_flags [serving scenario_page] 0 world_started =
     Inr (2, world_cycled)"
    using cycle_scenario [of default_flags] by (simp add: default_flags_fields)
  have 3: "page_sizes default_flags [serving scenario_page] 0 = [2]"
    by (simp add: serving_def scenario_page_def)
  from cursor_advances_by_page_sizes
    [OF 1, where lib = scenario_lib and ups = "[serving scenario_page]" and off = 2
       and w' = world_cycled] 2 3
  have 4: "Cursor default_flags world_cycled = Some 2"
    by simp
  have 5: "Cursor default_flags world_faulty = Some 0"
    by (simp add: Cursor_def world_faulty_def default_flags_fields)
  from cursor_advances_by_page_sizes
    [OF 5, where lib = scenario_lib and up = "serving scenario_page" and ?off0.0 = 0
       and e = CouldntAddHash and ?w1.0 = world_crashed] cycle_faulty
  have 6: "Cursor default_flags world_crashed = Some 0"
    by simp
  from 1 2 3 4 5 6 cycle_faulty show ?thesis
    by blast
qed

section \<open>Sets in Redis and the storing of a record\<close>

lemma keys_apart_neq:
  "keys_apart cfg \<Longrightarrow> redisDedupSetKey cfg \<noteq> redisSeqSetPrefix cfg @ '':'' @ h"
proof
  assume a: "keys_apart cfg" and e: "redisDedupSetKey cfg = redisSeqSetPrefix cfg @ '':'' @ h"
  have "take (length (redisSeqSetPrefix cfg) + 1) (redisSeqSetPrefix cfg @ '':'' @ h)
          = redisSeqSetPrefix cfg @ '':''"
    by simp
  with a e show False by (simp add: keys_apart_def)
qed

lemma keys_apart_default: "keys_apart default_flags"
  by (simp add: keys_apart_def default_flags_def)

lemma identifiersFor_members:
  "identifiersFor prefix st h = members st (prefix @ '':'' @ h)"
  by (simp add: identifiersFor_def members_def)

lemma hashesSeen_members: "hashesSeen cfg st = members st (redisDedupSetKey cfg)"
  by (simp add: hashesSeen_def members_def)

lemma is_member_members: "is_member st k m \<longleftrightarrow> m \<in> members st k"
  by (auto simp: is_member_def members_def split: option.splits rval.splits)

lemma sadd_other: "k' \<noteq> k \<Longrightarrow> sadd k m st k' = st k'"
  by (auto simp: sadd_def split: option.splits rval.splits)

lemma members_sadd:
  "members (sadd k m st) k' =
     (if k' = k \<and> sadd_ok k st then insert m (members st k) else members st k')"
  by (auto simp: sadd_def sadd_ok_def members_def split: option.splits rval.splits)

lemma sadd_noop: "is_member st k m \<Longrightarrow> sadd k m st = st"
  by (auto simp: sadd_def is_member_def split: option.splits rval.splits)

lemma is_member_sadd_ok: "is_member st k m \<Longrightarrow> sadd_ok k st"
  by (auto simp: sadd_ok_def is_member_def split: option.splits rval.splits)

lemma store_seq_works:
  assumes "faults w = []" and "sadd_ok (redisDedupSetKey cfg) (kv w)"
    and "sadd_ok (redisSeqSetPrefix cfg @ '':'' @ Hash s)
           (sadd (redisDedupSetKey cfg) (Hash s) (kv w))"
  shows "store_seq cfg s w =
           Inr \<lparr>fastas = (fastas w)(Hash s @ ''.fasta'' \<mapsto> fasta_file (Hash s) (Sequence s)),
                kv = sadd (redisSeqSetPrefix cfg @ '':'' @ Hash s) (URI s)
                       (sadd (redisDedupSetKey cfg) (Hash s) (kv w)),
                faults = []\<rparr>"
proof -
  have 1: "WriteFile (Hash s @ ''.fasta'') (fasta_file (Hash s) (Sequence s)) w =
             (True, w\<lparr>fastas := (fastas w)(Hash s @ ''.fasta'' \<mapsto>
                         fasta_file (Hash s) (Sequence s))\<rparr>)"
    using assms(1) by (simp add: WriteFile_def next_fault_def)
  have 2: "Cmd (SADD k m) v = (fst (redis_exec (SADD k m) (kv v)), v\<lparr>kv := sadd k m (kv v)\<rparr>)"
    if "faults v = []" for k m v
    using that by (simp add: Cmd_def next_fault_def sadd_def)
  show ?thesis
    using assms Resp_Err_SADD [of "redisDedupSetKey cfg" "Hash s" "kv w"]
      Resp_Err_SADD [of "redisSeqSetPrefix cfg @ '':'' @ Hash s" "URI s"
        "sadd (redisDedupSetKey cfg) (Hash s) (kv w)"]
    by (simp add: store_seq_def 1 2 Let_def sadd_def)
qed


lemma members_empty: "members Map.empty k = {}"
  by (simp add: members_def)

lemma sadd_ok_empty: "sadd_ok k Map.empty"
  by (simp add: sadd_ok_def)

lemma sadd_ok_sadd: "sadd_ok k st \<Longrightarrow> sadd_ok k (sadd k' m st)"
  by (auto simp: sadd_ok_def sadd_def split: option.splits rval.splits)

lemma INCRBY_members: "members (snd (redis_exec (INCRBY k' n) st)) k = members st k"
  by (auto simp: members_def split: option.splits rval.splits if_splits)

text \<open>The sets that storing two records of one hash leaves.\<close>

lemma sadd_ok_other: "k' \<noteq> k \<Longrightarrow> sadd_ok k (sadd k' m st) = sadd_ok k st"
  by (simp add: sadd_ok_def sadd_other)

lemma two_records_members:
  assumes "d \<noteq> p" and "sadd_ok d st" and "sadd_ok p st"
  shows "members (sadd p u2 (sadd d h (sadd p u1 (sadd d h st)))) k =
           (if k = p then {u1, u2} \<union> members st p
            else if k = d then insert h (members st d) else members st k)"
  using assms by (auto simp: members_sadd sadd_ok_sadd)

lemma process_two_Inr:
  assumes "Hash s2 = Hash s1" and "keys_apart cfg" and "process cfg [s1, s2] w = Inr w'"
  shows "fastas w' =
           (fastas w)(Hash s1 @ ''.fasta'' \<mapsto> fasta_file (Hash s1) (Sequence s2))"
    and "kv w' = sadd (redisSeqSetPrefix cfg @ '':'' @ Hash s1) (URI s2)
                (sadd (redisDedupSetKey cfg) (Hash s1)
                (sadd (redisSeqSetPrefix cfg @ '':'' @ Hash s1) (URI s1)
                (sadd (redisDedupSetKey cfg) (Hash s1) (kv w))))"
    and "sadd_ok (redisDedupSetKey cfg) (kv w)"
    and "sadd_ok (redisSeqSetPrefix cfg @ '':'' @ Hash s1) (kv w)"
proof -
  from assms(3) obtain w1 where 1: "store_seq cfg s1 w = Inr w1"
    and 2: "store_seq cfg s2 w1 = Inr w'"
    by (auto split: sum.splits)
  from store_seq_Inr(1) [OF 1] store_seq_Inr(1) [OF 2] assms(1)
  show "fastas w' =
           (fastas w)(Hash s1 @ ''.fasta'' \<mapsto> fasta_file (Hash s1) (Sequence s2))"
    and "kv w' = sadd (redisSeqSetPrefix cfg @ '':'' @ Hash s1) (URI s2)
                (sadd (redisDedupSetKey cfg) (Hash s1)
                (sadd (redisSeqSetPrefix cfg @ '':'' @ Hash s1) (URI s1)
                (sadd (redisDedupSetKey cfg) (Hash s1) (kv w))))"
    by simp_all
  show "sadd_ok (redisDedupSetKey cfg) (kv w)"
    by (rule store_seq_Inr(2) [OF 1])
  from store_seq_Inr(3) [OF 1] keys_apart_neq [OF assms(2), of "Hash s1"]
  show "sadd_ok (redisSeqSetPrefix cfg @ '':'' @ Hash s1) (kv w)"
    by (simp add: sadd_ok_other)
qed

lemma process_two_works:
  assumes "Hash s2 = Hash s1" and "faults w = []"
    and "sadd_ok (redisDedupSetKey cfg) (kv w)"
    and "sadd_ok (redisSeqSetPrefix cfg @ '':'' @ Hash s1) (kv w)"
  shows "\<exists>w'. process cfg [s1, s2] w = Inr w'"
proof -
  let ?w1 = "\<lparr>fastas = (fastas w)(Hash s1 @ ''.fasta'' \<mapsto> fasta_file (Hash s1) (Sequence s1)),
              kv = sadd (redisSeqSetPrefix cfg @ '':'' @ Hash s1) (URI s1)
                     (sadd (redisDedupSetKey cfg) (Hash s1) (kv w)),
              faults = []\<rparr>"
  have 1: "store_seq cfg s1 w = Inr ?w1"
    using assms(2,3,4) by (intro store_seq_works) (simp_all add: sadd_ok_sadd)
  have "sadd_ok (redisDedupSetKey cfg) (kv ?w1)"
    and "sadd_ok (redisSeqSetPrefix cfg @ '':'' @ Hash s2)
           (sadd (redisDedupSetKey cfg) (Hash s2) (kv ?w1))"
    using assms(1,3,4) by (simp_all add: sadd_ok_sadd)
  then have "\<exists>w'. store_seq cfg s2 ?w1 = Inr w'"
    using store_seq_works [of ?w1 cfg s2] by simp
  with 1 show ?thesis by auto
qed

lemma cycle_two_records:
  assumes "up (resultLimit cfg) off0 = Inr bytes" and "parse lib bytes = Inr seqs"
    and "cycle lib cfg up off0 w = Inr (off1, slept, v)"
  shows "\<exists>w1. process cfg seqs w = Inr w1 \<and> fastas v = fastas w1 \<and>
           (\<forall>k. members (kv v) k = members (kv w1) k)"
proof -
  from cycle_Inr [OF assms(3)] assms(1,2) obtain w1 r where
    1: "process cfg seqs w = Inr w1" and
    2: "Cmd (INCRBY (redisOffsetKey cfg) (int (length seqs))) w1 = (r, v)"
    by auto
  have "members (kv v) k = members (kv w1) k" for k
    using Cmd_kv [OF 2] INCRBY_members [of "redisOffsetKey cfg" "int (length seqs)" "kv w1" k]
    by metis
  with 1 Cmd_fastas [OF 2] show ?thesis by blast
qed

section \<open>Two records with one sequence\<close>

text \<open>
  Claim C1. Two records with the same normalized sequence, stored by \<open>process\<close> in any
  world: with no fault to come they are stored exactly when Redis accepts a \<^verbatim>\<open>SADD\<close> on
  the key of the hash set and on the key of the identifiers of their hash. When they are
  stored the two have one content hash, the fasta directory has changed in the one file
  named by it, the set of all hashes has gained that hash and nothing else, the identifier
  set of the hash has gained the identifiers of both records and nothing else, and the
  identifier set of every other hash is as it was. So from a directory with no file and
  a Redis with no member of any set (as the start-up leaves an empty one) there is one
  file, one hash in the hash set, and one identifier set, holding the two identifiers.
  A cycle of the harvester on a page of these two records stores them by \<open>process\<close> and
  then changes neither the files nor the sets.
\<close>

theorem dedup_of_two_records:
  assumes "Sequence s1 = Sequence s2" and "keys_apart cfg"
  shows "(faults w = [] \<longrightarrow>
            (\<exists>w'. process cfg [s1, s2] w = Inr w') =
              (sadd_ok (redisDedupSetKey cfg) (kv w) \<and>
               sadd_ok (redisSeqSetPrefix cfg @ '':'' @ Hash s1) (kv w))) \<and>
         (process cfg [s1, s2] w = Inr w' \<longrightarrow>
            Hash s2 = Hash s1 \<and>
            fastas w' =
              (fastas w)(Hash s1 @ ''.fasta'' \<mapsto> fasta_file (Hash s1) (Sequence s1)) \<and>
            hashesSeen cfg (kv w') = insert (Hash s1) (hashesSeen cfg (kv w)) \<and>
            identifiersFor (redisSeqSetPrefix cfg) (kv w') (Hash s1) =
              {URI s1, URI s2} \<union> identifiersFor (redisSeqSetPrefix cfg) (kv w) (Hash s1) \<and>
            (\<forall>h. h \<noteq> Hash s1 \<longrightarrow>
               identifiersFor (redisSeqSetPrefix cfg) (kv w') h =
                 identifiersFor (redisSeqSetPrefix cfg) (kv w) h) \<and>
            (fastas w = Map.empty \<and> (\<forall>k. members (kv w) k = {}) \<longrightarrow>
               dom (fastas w') = {Hash s1 @ ''.fasta''} \<and>
               hashesSeen cfg (kv w') = {Hash s1} \<and>
               identifiersFor (redisSeqSetPrefix cfg) (kv w') (Hash s1) = {URI s1, URI s2} \<and>
               (\<forall>h. h \<noteq> Hash s1 \<longrightarrow>
                  identifiersFor (redisSeqSetPrefix cfg) (kv w') h = {}))) \<and>
         (up (resultLimit cfg) off0 = Inr bytes \<and> parse lib bytes = Inr [s1, s2] \<and>
          cycle lib cfg up off0 w = Inr (off1, slept, v) \<longrightarrow>
            (\<exists>w1. process cfg [s1, s2] w = Inr w1 \<and> fastas v = fastas w1 \<and>
               hashesSeen cfg (kv v) = hashesSeen cfg (kv w1) \<and>
               (\<forall>h. identifiersFor (redisSeqSetPrefix cfg) (kv v) h =
                  identifiersFor (redisSeqSetPrefix cfg) (kv w1) h)))"
proof -
  have h: "Hash s2 = Hash s1"
    using assms(1) by (simp add: Hash_def)
  have dp: "redisDedupSetKey cfg \<noteq> redisSeqSetPrefix cfg @ '':'' @ x" for x
    using keys_apart_neq [OF assms(2)] .
  have A: "(\<exists>w'. process cfg [s1, s2] w = Inr w') =
              (sadd_ok (redisDedupSetKey cfg) (kv w) \<and>
               sadd_ok (redisSeqSetPrefix cfg @ '':'' @ Hash s1) (kv w))"
    if "faults w = []"
    using process_two_works [OF h that] process_two_Inr(3,4) [OF h assms(2)] by blast
  have B: "Hash s2 = Hash s1 \<and>
            fastas w' =
              (fastas w)(Hash s1 @ ''.fasta'' \<mapsto> fasta_file (Hash s1) (Sequence s1)) \<and>
            hashesSeen cfg (kv w') = insert (Hash s1) (hashesSeen cfg (kv w)) \<and>
            identifiersFor (redisSeqSetPrefix cfg) (kv w') (Hash s1) =
              {URI s1, URI s2} \<union> identifiersFor (redisSeqSetPrefix cfg) (kv w) (Hash s1) \<and>
            (\<forall>h. h \<noteq> Hash s1 \<longrightarrow>
               identifiersFor (redisSeqSetPrefix cfg) (kv w') h =
                 identifiersFor (redisSeqSetPrefix cfg) (kv w) h)"
    if p: "process cfg [s1, s2] w = Inr w'"
  proof -
    note r = process_two_Inr [OF h assms(2) p]
    note m = two_records_members [OF dp [of "Hash s1"] r(3) r(4),
        of "URI s2" "Hash s1" "URI s1"]
    have 1: "fastas w' =
              (fastas w)(Hash s1 @ ''.fasta'' \<mapsto> fasta_file (Hash s1) (Sequence s1))"
      using r(1) assms(1) by simp
    have 2: "hashesSeen cfg (kv w') = insert (Hash s1) (hashesSeen cfg (kv w))"
      using dp [of "Hash s1"] m [of "redisDedupSetKey cfg"]
      by (simp add: hashesSeen_members r(2))
    have 3: "identifiersFor (redisSeqSetPrefix cfg) (kv w') (Hash s1) =
              {URI s1, URI s2} \<union> identifiersFor (redisSeqSetPrefix cfg) (kv w) (Hash s1)"
      using m [of "redisSeqSetPrefix cfg @ '':'' @ Hash s1"]
      by (simp add: identifiersFor_members r(2))
    have 4: "identifiersFor (redisSeqSetPrefix cfg) (kv w') x =
                 identifiersFor (redisSeqSetPrefix cfg) (kv w) x" if "x \<noteq> Hash s1" for x
      using that dp [of x] m [of "redisSeqSetPrefix cfg @ '':'' @ x"]
      by (simp add: identifiersFor_members r(2))
    from h 1 2 3 4 show ?thesis by blast
  qed
  have C: "fastas w = Map.empty \<and> (\<forall>k. members (kv w) k = {}) \<longrightarrow>
               dom (fastas w') = {Hash s1 @ ''.fasta''} \<and>
               hashesSeen cfg (kv w') = {Hash s1} \<and>
               identifiersFor (redisSeqSetPrefix cfg) (kv w') (Hash s1) = {URI s1, URI s2} \<and>
               (\<forall>h. h \<noteq> Hash s1 \<longrightarrow>
                  identifiersFor (redisSeqSetPrefix cfg) (kv w') h = {})"
    if p: "process cfg [s1, s2] w = Inr w'"
    using B [OF p] by (simp add: hashesSeen_members identifiersFor_members)
  have D: "\<exists>w1. process cfg [s1, s2] w = Inr w1 \<and> fastas v = fastas w1 \<and>
               hashesSeen cfg (kv v) = hashesSeen cfg (kv w1) \<and>
               (\<forall>h. identifiersFor (redisSeqSetPrefix cfg) (kv v) h =
                  identifiersFor (redisSeqSetPrefix cfg) (kv w1) h)"
    if "up (resultLimit cfg) off0 = Inr bytes \<and> parse lib bytes = Inr [s1, s2] \<and>
          cycle lib cfg up off0 w = Inr (off1, slept, v)"
    using cycle_two_records [of up cfg off0 bytes lib "[s1, s2]" w off1 slept v] that
    by (auto simp: hashesSeen_members identifiersFor_members)
  have I1: "faults w = [] \<longrightarrow>
            (\<exists>w'. process cfg [s1, s2] w = Inr w') =
              (sadd_ok (redisDedupSetKey cfg) (kv w) \<and>
               sadd_ok (redisSeqSetPrefix cfg @ '':'' @ Hash s1) (kv w))"
  proof
    assume "faults w = []"
    then show "(\<exists>w'. process cfg [s1, s2] w = Inr w') =
              (sadd_ok (redisDedupSetKey cfg) (kv w) \<and>
               sadd_ok (redisSeqSetPrefix cfg @ '':'' @ Hash s1) (kv w))"
      by (rule A)
  qed
  have I2: "process cfg [s1, s2] w = Inr w' \<longrightarrow>
            Hash s2 = Hash s1 \<and>
            fastas w' =
              (fastas w)(Hash s1 @ ''.fasta'' \<mapsto> fasta_file (Hash s1) (Sequence s1)) \<and>
            hashesSeen cfg (kv w') = insert (Hash s1) (hashesSeen cfg (kv w)) \<and>
            identifiersFor (redisSeqSetPrefix cfg) (kv w') (Hash s1) =
              {URI s1, URI s2} \<union> identifiersFor (redisSeqSetPrefix cfg) (kv w) (Hash s1) \<and>
            (\<forall>h. h \<noteq> Hash s1 \<longrightarrow>
               identifiersFor (redisSeqSetPrefix cfg) (kv w') h =
                 identifiersFor (redisSeqSetPrefix cfg) (kv w) h) \<and>
            (fastas w = Map.empty \<and> (\<forall>k. members (kv w) k = {}) \<longrightarrow>
               dom (fastas w') = {Hash s1 @ ''.fasta''} \<and>
               hashesSeen cfg (kv w') = {Hash s1} \<and>
               identifiersFor (redisSeqSetPrefix cfg) (kv w') (Hash s1) = {URI s1, URI s2} \<and>
               (\<forall>h. h \<noteq> Hash s1 \<longrightarrow>
                  identifiersFor (redisSeqSetPrefix cfg) (kv w') h = {}))"
  proof
    assume p: "process cfg [s1, s2] w = Inr w'"
    from B [OF p] have b1: "Hash s2 = Hash s1"
      and b2: "fastas w' =
              (fastas w)(Hash s1 @ ''.fasta'' \<mapsto> fasta_file (Hash s1) (Sequence s1))"
      and b3: "hashesSeen cfg (kv w') = insert (Hash s1) (hashesSeen cfg (kv w))"
      and b4: "identifiersFor (redisSeqSetPrefix cfg) (kv w') (Hash s1) =
              {URI s1, URI s2} \<union> identifiersFor (redisSeqSetPrefix cfg) (kv w) (Hash s1)"
      and b5: "\<forall>h. h \<noteq> Hash s1 \<longrightarrow>
               identifiersFor (redisSeqSetPrefix cfg) (kv w') h =
                 identifiersFor (redisSeqSetPrefix cfg) (kv w) h"
      by simp_all
    note c = C [OF p]
    show "Hash s2 = Hash s1 \<and>
            fastas w' =
              (fastas w)(Hash s1 @ ''.fasta'' \<mapsto> fasta_file (Hash s1) (Sequence s1)) \<and>
            hashesSeen cfg (kv w') = insert (Hash s1) (hashesSeen cfg (kv w)) \<and>
            identifiersFor (redisSeqSetPrefix cfg) (kv w') (Hash s1) =
              {URI s1, URI s2} \<union> identifiersFor (redisSeqSetPrefix cfg) (kv w) (Hash s1) \<and>
            (\<forall>h. h \<noteq> Hash s1 \<longrightarrow>
               identifiersFor (redisSeqSetPrefix cfg) (kv w') h =
                 identifiersFor (redisSeqSetPrefix cfg) (kv w) h) \<and>
            (fastas w = Map.empty \<and> (\<forall>k. members (kv w) k = {}) \<longrightarrow>
               dom (fastas w') = {Hash s1 @ ''.fasta''} \<and>
               hashesSeen cfg (kv w') = {Hash s1} \<and>
               identifiersFor (redisSeqSetPrefix cfg) (kv w') (Hash s1) = {URI s1, URI s2} \<and>
               (\<forall>h. h \<noteq> Hash s1 \<longrightarrow>
                  identifiersFor (redisSeqSetPrefix cfg) (kv w') h = {}))"
      by (rule conjI [OF b1 conjI [OF b2 conjI [OF b3 conjI [OF b4 conjI [OF b5 c]]]]])
  qed
  have I3: "up (resultLimit cfg) off0 = Inr bytes \<and> parse lib bytes = Inr [s1, s2] \<and>
          cycle lib cfg up off0 w = Inr (off1, slept, v) \<longrightarrow>
            (\<exists>w1. process cfg [s1, s2] w = Inr w1 \<and> fastas v = fastas w1 \<and>
               hashesSeen cfg (kv v) = hashesSeen cfg (kv w1) \<and>
               (\<forall>h. identifiersFor (redisSeqSetPrefix cfg) (kv v) h =
                  identifiersFor (redisSeqSetPrefix cfg) (kv w1) h))"
  proof
    assume "up (resultLimit cfg) off0 = Inr bytes \<and> parse lib bytes = Inr [s1, s2] \<and>
          cycle lib cfg up off0 w = Inr (off1, slept, v)"
    then show "\<exists>w1. process cfg [s1, s2] w = Inr w1 \<and> fastas v = fastas w1 \<and>
               hashesSeen cfg (kv v) = hashesSeen cfg (kv w1) \<and>
               (\<forall>h. identifiersFor (redisSeqSetPrefix cfg) (kv v) h =
                  identifiersFor (redisSeqSetPrefix cfg) (kv w1) h)"
      by (rule D)
  qed
  show ?thesis
    by (rule conjI [OF I1 conjI [OF I2 I3]])
qed


lemma process_started_stored:
  "process default_flags [rec_u1, rec_u2] world_started = Inr world_stored"
  using process_started [of default_flags]
  by (simp add: default_flags_fields world_stored_def)

theorem dedup_of_two_records_witness:
  "Sequence rec_u1 = Sequence rec_u2 \<and> keys_apart default_flags \<and>
   startup default_flags fresh_world = Inr (0, world_started) \<and>
   faults world_started = [] \<and>
   sadd_ok ''sequenceHashSet'' (kv world_started) \<and>
   sadd_ok (''sequence:'' @ Hash rec_u1) (kv world_started) \<and>
   parse scenario_lib (Some scenario_page) = Inr [rec_u1, rec_u2] \<and>
   process default_flags [rec_u1, rec_u2] world_started = Inr world_stored \<and>
   dom (fastas world_stored) = {Hash rec_u1 @ ''.fasta''} \<and>
   fastas world_stored (Hash rec_u1 @ ''.fasta'') = Some (fasta_file (Hash rec_u1) ''acgt'') \<and>
   hashesSeen default_flags (kv world_stored) = {Hash rec_u1} \<and>
   identifiersFor ''sequence'' (kv world_stored) (Hash rec_u1) = {''u1'', ''u2''} \<and>
   identifiersFor ''sequence'' (kv world_stored) ''0000'' = {} \<and>
   cycle scenario_lib default_flags (serving scenario_page) 0 world_started =
     Inr (2, Hour * 4, world_cycled) \<and>
   fastas world_cycled = fastas world_stored \<and>
   hashesSeen default_flags (kv world_cycled) = {Hash rec_u1} \<and>
   identifiersFor ''sequence'' (kv world_cycled) (Hash rec_u1) = {''u1'', ''u2''}"
proof -
  have 1: "Sequence rec_u1 = Sequence rec_u2"
    by (simp add: scenario_fields)
  have 2: "faults world_started = []" "fastas world_started = Map.empty"
    "\<forall>k. members (kv world_started) k = {}"
    "sadd_ok ''sequenceHashSet'' (kv world_started)"
    "sadd_ok (''sequence:'' @ Hash rec_u1) (kv world_started)"
    by (simp_all add: world_started_def members_def sadd_ok_def)
  have 3: "cycle scenario_lib default_flags (serving scenario_page) 0 world_started =
     Inr (2, Hour * 4, world_cycled)"
    using cycle_scenario [of default_flags] by (simp add: default_flags_fields)
  have 4: "serving scenario_page (resultLimit default_flags) 0 = Inr (Some scenario_page)"
    by (simp add: serving_def)
  note t = dedup_of_two_records
    [OF 1 keys_apart_default, where w = world_started and w' = world_stored
       and up = "serving scenario_page" and ?off0.0 = 0 and bytes = "Some scenario_page"
       and lib = scenario_lib and ?off1.0 = 2 and slept = "Hour * 4" and v = world_cycled]
  note t2 = t [THEN conjunct2, THEN conjunct1, THEN mp, OF process_started_stored]
  note 6 = t2 [THEN conjunct2, THEN conjunct1]
  note t2c = t2 [THEN conjunct2, THEN conjunct2, THEN conjunct2, THEN conjunct2,
      THEN conjunct2, THEN mp, OF conjI [OF 2(2) 2(3)]]
  note 5 = t2c [THEN conjunct1]
  note 7 = t2c [THEN conjunct2, THEN conjunct1]
  note 8 = t2c [THEN conjunct2, THEN conjunct2, THEN conjunct1]
  note 9 = t2c [THEN conjunct2, THEN conjunct2, THEN conjunct2]
  from 6 have 10: "fastas world_stored (Hash rec_u1 @ ''.fasta'') =
                     Some (fasta_file (Hash rec_u1) ''acgt'')"
    by (simp add: scenario_fields)
  from 8 have 11: "identifiersFor ''sequence'' (kv world_stored) (Hash rec_u1) = {''u1'', ''u2''}"
    by (simp add: scenario_fields default_flags_fields)
  from 9 Hash_rec_u1_not_0000
  have 12: "identifiersFor ''sequence'' (kv world_stored) ''0000'' = {}"
    by (simp add: default_flags_fields)
  note t3 = t [THEN conjunct2, THEN conjunct2, THEN mp,
      OF conjI [OF 4 conjI [OF parse_scenario 3]]]
  from t3 obtain w1 where w1: "process default_flags [rec_u1, rec_u2] world_started = Inr w1"
    and 13: "fastas world_cycled = fastas w1"
    and 14: "hashesSeen default_flags (kv world_cycled) = hashesSeen default_flags (kv w1)"
    and 15: "\<forall>h. identifiersFor (redisSeqSetPrefix default_flags) (kv world_cycled) h =
               identifiersFor (redisSeqSetPrefix default_flags) (kv w1) h"
    by (elim exE conjE)
  from w1 process_started_stored have ws: "w1 = world_stored"
    by simp
  from 14 7 ws have 16: "hashesSeen default_flags (kv world_cycled) = {Hash rec_u1}"
    by simp
  from 13 ws have 13: "fastas world_cycled = fastas world_stored"
    by simp
  from 15 8 ws have 17: "identifiersFor ''sequence'' (kv world_cycled) (Hash rec_u1) = {''u1'', ''u2''}"
    by (simp add: scenario_fields default_flags_fields)
  from 1 keys_apart_default startup_fresh 2(1,4,5) parse_scenario process_started_stored
    5 10 7 11 12 3 13 16 17
  show ?thesis
    by (intro conjI) assumption+
qed

section \<open>Storing a page again\<close>

lemma members_sadd_mono: "members st k \<subseteq> members (sadd k' m st) k"
  by (auto simp: members_sadd)

lemma store_seq_members:
  assumes "store_seq cfg s w = Inr w1"
  shows "is_member (kv w1) (redisDedupSetKey cfg) (Hash s)"
    and "is_member (kv w1) (redisSeqSetPrefix cfg @ '':'' @ Hash s) (URI s)"
    and "is_member (kv w) k m \<Longrightarrow> is_member (kv w1) k m"
proof -
  note r = store_seq_Inr [OF assms]
  have kv1: "kv w1 = sadd (redisSeqSetPrefix cfg @ '':'' @ Hash s) (URI s)
                      (sadd (redisDedupSetKey cfg) (Hash s) (kv w))"
    using r(1) by simp
  have "Hash s \<in> members (sadd (redisDedupSetKey cfg) (Hash s) (kv w)) (redisDedupSetKey cfg)"
    using r(2) by (simp add: members_sadd)
  then show "is_member (kv w1) (redisDedupSetKey cfg) (Hash s)"
    unfolding kv1 is_member_members using members_sadd_mono by blast
  show "is_member (kv w1) (redisSeqSetPrefix cfg @ '':'' @ Hash s) (URI s)"
    unfolding kv1 is_member_members using r(3) by (simp add: members_sadd)
  show "is_member (kv w) k m \<Longrightarrow> is_member (kv w1) k m"
    unfolding kv1 is_member_members using members_sadd_mono by blast
qed

lemma process_is_member_mono:
  "process cfg seqs w = Inr w1 \<Longrightarrow> is_member (kv w) k m \<Longrightarrow> is_member (kv w1) k m"
proof (induction seqs arbitrary: w)
  case Nil
  then show ?case by simp
next
  case (Cons s ss)
  from Cons.prems(1) obtain v where 1: "store_seq cfg s w = Inr v"
    and 2: "process cfg ss v = Inr w1"
    by (auto split: sum.splits)
  from store_seq_members(3) [OF 1 Cons.prems(2)] Cons.IH [OF 2] show ?case by blast
qed

lemma process_members:
  "process cfg seqs w = Inr w1 \<Longrightarrow> s \<in> set seqs \<Longrightarrow>
     is_member (kv w1) (redisDedupSetKey cfg) (Hash s) \<and>
     is_member (kv w1) (redisSeqSetPrefix cfg @ '':'' @ Hash s) (URI s)"
proof (induction seqs arbitrary: w)
  case Nil
  then show ?case by simp
next
  case (Cons a ss)
  from Cons.prems(1) obtain v where 1: "store_seq cfg a w = Inr v"
    and 2: "process cfg ss v = Inr w1"
    by (auto split: sum.splits)
  show ?case
  proof (cases "s = a")
    case True
    with store_seq_members(1,2) [OF 1] process_is_member_mono [OF 2] show ?thesis
      by blast
  next
    case False
    with Cons.prems(2) have "s \<in> set ss" by simp
    from Cons.IH [OF 2 this] show ?thesis .
  qed
qed

text \<open>Storing a page whose hashes and identifiers Redis already has leaves Redis as it is.\<close>

lemma process_again_kv:
  assumes "\<forall>s \<in> set seqs. is_member (kv w) (redisDedupSetKey cfg) (Hash s) \<and>
             is_member (kv w) (redisSeqSetPrefix cfg @ '':'' @ Hash s) (URI s)"
    and "process cfg seqs w = Inr w2"
  shows "kv w2 = kv w"
  using assms
proof (induction seqs arbitrary: w)
  case Nil
  then show ?case by simp
next
  case (Cons s ss)
  from Cons.prems(2) obtain v where 1: "store_seq cfg s w = Inr v"
    and 2: "process cfg ss v = Inr w2"
    by (auto split: sum.splits)
  have "kv v = kv w"
    using store_seq_Inr(1) [OF 1] Cons.prems(1) by (simp add: sadd_noop)
  with Cons.IH [OF _ 2] Cons.prems(1) show ?case by simp
qed

lemma process_again_works:
  assumes "\<forall>s \<in> set seqs. is_member (kv w) (redisDedupSetKey cfg) (Hash s) \<and>
             is_member (kv w) (redisSeqSetPrefix cfg @ '':'' @ Hash s) (URI s)"
    and "faults w = []"
  shows "\<exists>w2. process cfg seqs w = Inr w2 \<and> faults w2 = []"
  using assms
proof (induction seqs arbitrary: w)
  case Nil
  then show ?case by simp
next
  case (Cons s ss)
  let ?v = "\<lparr>fastas = (fastas w)(Hash s @ ''.fasta'' \<mapsto> fasta_file (Hash s) (Sequence s)),
             kv = sadd (redisSeqSetPrefix cfg @ '':'' @ Hash s) (URI s)
                    (sadd (redisDedupSetKey cfg) (Hash s) (kv w)),
             faults = []\<rparr>"
  have m: "is_member (kv w) (redisDedupSetKey cfg) (Hash s)"
    "is_member (kv w) (redisSeqSetPrefix cfg @ '':'' @ Hash s) (URI s)"
    using Cons.prems(1) by simp_all
  have 1: "store_seq cfg s w = Inr ?v"
    using Cons.prems(2) m
    by (intro store_seq_works) (simp_all add: sadd_noop is_member_sadd_ok)
  have "kv ?v = kv w"
    using m by (simp add: sadd_noop)
  with Cons.prems(1) have "\<forall>s \<in> set ss. is_member (kv ?v) (redisDedupSetKey cfg) (Hash s) \<and>
             is_member (kv ?v) (redisSeqSetPrefix cfg @ '':'' @ Hash s) (URI s)"
    by simp
  from Cons.IH [OF this] 1 show ?case by simp
qed

lemma map_add_twice: "(m ++ f) ++ f = m ++ f"
  by (rule ext) (simp add: map_add_def split: option.splits)

text \<open>
  Claim C6. When \<open>process\<close> has stored a page, storing the same page again leaves the
  fasta directory and Redis as the first run left them; and with no fault to come the
  second run does succeed, in the very same world.
\<close>

theorem storing_is_idempotent:
  assumes "process cfg seqs w = Inr w1"
  shows "(process cfg seqs w1 = Inr w2 \<longrightarrow> fastas w2 = fastas w1 \<and> kv w2 = kv w1) \<and>
         (faults w1 = [] \<longrightarrow> process cfg seqs w1 = Inr w1)"
proof -
  have m: "\<forall>s \<in> set seqs. is_member (kv w1) (redisDedupSetKey cfg) (Hash s) \<and>
             is_member (kv w1) (redisSeqSetPrefix cfg @ '':'' @ Hash s) (URI s)"
    using process_members [OF assms] by blast
  have again: "fastas v = fastas w1 \<and> kv v = kv w1" if "process cfg seqs w1 = Inr v" for v
  proof
    show "fastas v = fastas w1"
      using process_fastas [OF assms] process_fastas [OF that] by (simp add: map_add_twice)
    show "kv v = kv w1"
      using process_again_kv [OF m that] .
  qed
  have "process cfg seqs w1 = Inr w1" if "faults w1 = []"
  proof -
    from process_again_works [OF m that] obtain v where
      v: "process cfg seqs w1 = Inr v" "faults v = []"
      by blast
    with again [OF v(1)] that have "v = w1" by simp
    with v show ?thesis by simp
  qed
  with again show ?thesis by blast
qed


theorem storing_is_idempotent_witness:
  "process default_flags [rec_u1, rec_u2] fresh_world = Inr world_u12 \<and>
   faults world_u12 = [] \<and>
   process default_flags [rec_u1, rec_u2] world_u12 = Inr world_u12"
proof -
  have 1: "faults world_u12 = []"
    by (simp add: world_u12_def)
  from storing_is_idempotent [OF process_scenario, of world_u12] 1
  have "process default_flags [rec_u1, rec_u2] world_u12 = Inr world_u12"
    by blast
  with 1 process_scenario show ?thesis
    by blast
qed

section \<open>Nothing is removed, and the two stores stay paired\<close>























lemma WriteFile_refused:
  "WriteFile f c w = (False, w') \<Longrightarrow> fastas w f \<noteq> None \<Longrightarrow> fastas w' f \<noteq> None"
  by (auto simp: WriteFile_def next_fault_def split: list.splits option.splits fault.splits)


















subsection \<open>A crash between the file and the identifiers\<close>













section \<open>Reconciliation\<close>

lemma foldl_PipeAppend:
  "foldl (\<lambda>c x. PipeAppend (f x) c) cl xs = cl\<lparr>pending := pending cl @ map f xs\<rparr>"
  by (induction xs arbitrary: cl) (simp_all add: PipeAppend_def)

lemma Resp_List_SMEMBERS:
  "Resp_List (fst (redis_exec (SMEMBERS k) st)) =
     (if sadd_ok k st then Inr (smembers st k) else Inl ErrApp)"
  by (auto simp: sadd_ok_def smembers_def split: option.splits rval.splits)

text \<open>Reading the replies that the pipeline holds, one a hit.\<close>

lemma read_URIs_completed_ok:
  assumes "\<not> lastCritical cl"
    and "completed cl = map (\<lambda>x. fst (redis_exec (SMEMBERS (hit_key prefix x)) st)) xs @ rest"
    and "list_all (\<lambda>x. sadd_ok (hit_key prefix x) st) xs"
  shows "read_URIs st xs cl = Inr (map (fill_URIs prefix st) xs, cl\<lparr>completed := rest\<rparr>)"
  using assms
proof (induction xs arbitrary: cl)
  case Nil
  then show ?case by simp
next
  case (Cons x xs)
  let ?cl1 = "cl\<lparr>completed := map (\<lambda>x. fst (redis_exec (SMEMBERS (hit_key prefix x)) st)) xs @ rest\<rparr>"
  have 1: "PipeResp st cl = (fst (redis_exec (SMEMBERS (hit_key prefix x)) st), ?cl1)"
    using Cons.prems(1,2) by (simp add: PipeResp_def del: redis_exec.simps)
  have 2: "read_URIs st xs ?cl1 = Inr (map (fill_URIs prefix st) xs, ?cl1\<lparr>completed := rest\<rparr>)"
    using Cons.prems by (intro Cons.IH) simp_all
  from 1 2 Cons.prems(3) show ?case
    by (simp add: Resp_List_SMEMBERS fill_URIs_def del: redis_exec.simps)
qed

lemma read_URIs_completed_bad:
  assumes "\<not> lastCritical cl"
    and "completed cl = map (\<lambda>x. fst (redis_exec (SMEMBERS (hit_key prefix x)) st)) xs @ rest"
    and "\<not> list_all (\<lambda>x. sadd_ok (hit_key prefix x) st) xs"
  shows "\<exists>e. read_URIs st xs cl = Inl e"
  using assms
proof (induction xs arbitrary: cl)
  case Nil
  then show ?case by simp
next
  case (Cons x xs)
  let ?cl1 = "cl\<lparr>completed := map (\<lambda>x. fst (redis_exec (SMEMBERS (hit_key prefix x)) st)) xs @ rest\<rparr>"
  have 1: "PipeResp st cl = (fst (redis_exec (SMEMBERS (hit_key prefix x)) st), ?cl1)"
    using Cons.prems(1,2) by (simp add: PipeResp_def del: redis_exec.simps)
  show ?case
  proof (cases "sadd_ok (hit_key prefix x) st")
    case False
    with 1 show ?thesis by (simp add: Resp_List_SMEMBERS del: redis_exec.simps)
  next
    case True
    with Cons.prems(3) have "\<not> list_all (\<lambda>x. sadd_ok (hit_key prefix x) st) xs" by simp
    with Cons.prems(1) have "\<exists>e. read_URIs st xs ?cl1 = Inl e"
      by (intro Cons.IH) simp_all
    with 1 True show ?thesis
      by (auto simp add: Resp_List_SMEMBERS simp del: redis_exec.simps)
  qed
qed

text \<open>Reading the replies of the commands that were appended to an empty pipeline.\<close>

lemma read_URIs_pending:
  assumes "\<not> lastCritical cl" and "completed cl = []"
    and "pending cl = map (\<lambda>x. SMEMBERS (hit_key prefix x)) xs"
  shows "read_URIs st xs cl =
           (if xs = [] then Inr ([], cl)
            else if netdown cl
            then Inl (ErrIO, cl\<lparr>pending := [], lastCritical := True\<rparr>)
            else read_URIs st xs
                   (cl\<lparr>pending := [],
                      completed := map (\<lambda>x. fst (redis_exec (SMEMBERS (hit_key prefix x)) st)) xs\<rparr>))"
proof (cases xs)
  case Nil
  then show ?thesis by simp
next
  case (Cons x ys)
  show ?thesis
  proof (cases "netdown cl")
    case True
    with assms Cons show ?thesis by (simp add: PipeResp_def del: redis_exec.simps)
  next
    case False
    with assms Cons show ?thesis
      by (simp add: PipeResp_def comp_def del: redis_exec.simps)
  qed
qed


lemma getURIs_ok:
  assumes "pending cl = []" and "completed cl = []" and "\<not> lastCritical cl"
    and "\<not> netdown cl"
    and "list_all (\<lambda>x. sadd_ok (hit_key prefix x) st) (Results_blast r)"
  shows "getURIs prefix st r cl =
           Inr (r\<lparr>Results_blast := map (fill_URIs prefix st) (Results_blast r)\<rparr>, cl)"
proof -
  let ?xs = "Results_blast r"
  let ?cl1 = "cl\<lparr>pending := map (\<lambda>x. SMEMBERS (hit_key prefix x)) ?xs\<rparr>"
  let ?cl2 = "?cl1\<lparr>pending := [],
                 completed := map (\<lambda>x. fst (redis_exec (SMEMBERS (hit_key prefix x)) st)) ?xs\<rparr>"
  have cl: "cl\<lparr>pending := [], completed := []\<rparr> = cl"
    using assms(1,2) by simp
  have f: "foldl (\<lambda>c x. PipeAppend (SMEMBERS (prefix @ '':'' @ SeqHash x)) c) cl ?xs = ?cl1"
    using assms(1) foldl_PipeAppend [of "\<lambda>x. SMEMBERS (hit_key prefix x)" cl ?xs]
    by (simp add: hit_key_def)
  have "read_URIs st ?xs ?cl1 = Inr (map (fill_URIs prefix st) ?xs, cl)"
  proof (cases "?xs = []")
    case True
    with assms(1) show ?thesis by simp
  next
    case False
    have "read_URIs st ?xs ?cl1 = read_URIs st ?xs ?cl2"
      using read_URIs_pending [of ?cl1 prefix ?xs st] assms(2,3,4) False by simp
    also have "\<dots> = Inr (map (fill_URIs prefix st) ?xs, ?cl2\<lparr>completed := []\<rparr>)"
      using assms(3,5) by (intro read_URIs_completed_ok) simp_all
    also have "?cl2\<lparr>completed := []\<rparr> = cl"
      using cl by simp
    finally show ?thesis .
  qed
  with f show ?thesis by (simp add: getURIs_def)
qed

lemma getURIs_Inr:
  assumes "pending cl = []" and "completed cl = []" and "\<not> lastCritical cl"
    and "getURIs prefix st r cl = Inr (r', cl')"
  shows "r' = r\<lparr>Results_blast := map (fill_URIs prefix st) (Results_blast r)\<rparr> \<and> cl' = cl"
proof -
  let ?xs = "Results_blast r"
  let ?cl1 = "cl\<lparr>pending := map (\<lambda>x. SMEMBERS (hit_key prefix x)) ?xs\<rparr>"
  let ?cl2 = "?cl1\<lparr>pending := [],
                 completed := map (\<lambda>x. fst (redis_exec (SMEMBERS (hit_key prefix x)) st)) ?xs\<rparr>"
  have f: "foldl (\<lambda>c x. PipeAppend (SMEMBERS (prefix @ '':'' @ SeqHash x)) c) cl ?xs = ?cl1"
    using assms(1) foldl_PipeAppend [of "\<lambda>x. SMEMBERS (hit_key prefix x)" cl ?xs]
    by (simp add: hit_key_def)
  show ?thesis
  proof (cases "?xs = []")
    case True
    with assms(1,4) f show ?thesis by (simp add: getURIs_def)
  next
    case False
    note ne = this
    have p: "read_URIs st ?xs ?cl1 =
               (if netdown cl then Inl (ErrIO, ?cl1\<lparr>pending := [], lastCritical := True\<rparr>)
                else read_URIs st ?xs ?cl2)"
      using read_URIs_pending [of ?cl1 prefix ?xs st] assms(2,3) ne by simp
    have up: "\<not> netdown cl"
      using assms(4) f p by (auto simp: getURIs_def split: if_splits)
    have ok: "list_all (\<lambda>x. sadd_ok (hit_key prefix x) st) ?xs"
    proof (rule ccontr)
      assume "\<not> list_all (\<lambda>x. sadd_ok (hit_key prefix x) st) ?xs"
      with assms(3) have "\<exists>e. read_URIs st ?xs ?cl2 = Inl e"
        by (intro read_URIs_completed_bad [where rest = "[]"]) simp_all
      with assms(4) f p up show False by (auto simp: getURIs_def)
    qed
    from getURIs_ok [OF assms(1,2,3) up ok] assms(4) show ?thesis by simp
  qed
qed

lemma set_smembers: "set (smembers st (hit_key prefix x)) = identifiersFor prefix st (SeqHash x)"
  by (simp add: smembers_def identifiersFor_def hit_key_def split: option.splits rval.splits)

text \<open>
  Called with an empty pipeline, \<open>getURIs\<close> that returns no error returns the
  hits it was given, as many and in the same order, each with nothing changed but its
  identifiers, which are the members of the identifier set of its hash; it leaves the
  pipeline empty. It does return no error when the connection works and no key of a hit
  holds a string; a hit whose hash has no identifier set is such a hit, and gets the empty
  list of identifiers.
\<close>

lemma getURIs_from_empty_pipeline:
  assumes "pending cl = []" and "completed cl = []" and "\<not> lastCritical cl"
  shows "(getURIs prefix st r cl = Inr (r', cl') \<longrightarrow>
            r' = r\<lparr>Results_blast := map (fill_URIs prefix st) (Results_blast r)\<rparr> \<and>
            length (Results_blast r') = length (Results_blast r) \<and> cl' = cl) \<and>
         (\<not> netdown cl \<and> list_all (\<lambda>x. sadd_ok (hit_key prefix x) st) (Results_blast r) \<longrightarrow>
            getURIs prefix st r cl =
              Inr (r\<lparr>Results_blast := map (fill_URIs prefix st) (Results_blast r)\<rparr>, cl)) \<and>
         fill_URIs prefix st x = x\<lparr>URIs := URIs (fill_URIs prefix st x)\<rparr> \<and>
         set (URIs (fill_URIs prefix st x)) = identifiersFor prefix st (SeqHash x) \<and>
         (st (hit_key prefix x) = None \<longrightarrow>
            sadd_ok (hit_key prefix x) st \<and> URIs (fill_URIs prefix st x) = [])"
proof (intro conjI impI)
  assume a: "getURIs prefix st r cl = Inr (r', cl')"
  from getURIs_Inr [OF assms a]
  show "r' = r\<lparr>Results_blast := map (fill_URIs prefix st) (Results_blast r)\<rparr>"
    and "cl' = cl"
    by simp_all
  then show "length (Results_blast r') = length (Results_blast r)"
    by simp
next
  assume "\<not> netdown cl \<and> list_all (\<lambda>x. sadd_ok (hit_key prefix x) st) (Results_blast r)"
  then show "getURIs prefix st r cl =
              Inr (r\<lparr>Results_blast := map (fill_URIs prefix st) (Results_blast r)\<rparr>, cl)"
    using getURIs_ok [OF assms] by blast
next
  show "fill_URIs prefix st x = x\<lparr>URIs := URIs (fill_URIs prefix st x)\<rparr>"
    by (simp add: fill_URIs_def)
  show "set (URIs (fill_URIs prefix st x)) = identifiersFor prefix st (SeqHash x)"
    by (simp add: fill_URIs_def set_smembers)
next
  assume "st (hit_key prefix x) = None"
  then show "sadd_ok (hit_key prefix x) st" and "URIs (fill_URIs prefix st x) = []"
    by (simp_all add: sadd_ok_def fill_URIs_def smembers_def)
qed


lemma getURIs_two_hits:
  "pending fresh_client = [] \<and> completed fresh_client = [] \<and>
   lastCritical fresh_client = False \<and> netdown fresh_client = False \<and>
   list_all (\<lambda>x. sadd_ok (hit_key ''sequence'' x) (kv world_u12)) (Results_blast two_hits) \<and>
   kv world_u12 (hit_key ''sequence'' (hit ''0000'' 3)) = None \<and>
   getURIs ''sequence'' (kv world_u12) two_hits fresh_client =
     Inr (two_hits\<lparr>Results_blast :=
            [(hit (Hash rec_u1) 4)\<lparr>URIs := [''u1'', ''u2'']\<rparr>, hit ''0000'' 3]\<rparr>,
          fresh_client)"
proof -
  have 1: "pending fresh_client = []" "completed fresh_client = []"
    "\<not> lastCritical fresh_client" "\<not> netdown fresh_client"
    by (simp_all add: fresh_client_def)
  have 2: "list_all (\<lambda>x. sadd_ok (hit_key ''sequence'' x) (kv world_u12))
             (Results_blast two_hits)"
    using Hash_rec_u1_not_0000
    by (simp add: two_hits_def hit_def hit_key_def sadd_ok_def world_u12_def)
  have 3: "kv world_u12 (hit_key ''sequence'' (hit ''0000'' 3)) = None"
    using Hash_rec_u1_not_0000
    by (auto simp: hit_def hit_key_def world_u12_def)
  have 4: "map (fill_URIs ''sequence'' (kv world_u12)) (Results_blast two_hits) =
             [(hit (Hash rec_u1) 4)\<lparr>URIs := [''u1'', ''u2'']\<rparr>, hit ''0000'' 3]"
    using Hash_rec_u1_not_0000
    by (auto simp: two_hits_def hit_def hit_key_def fill_URIs_def smembers_def world_u12_def)
  from getURIs_from_empty_pipeline
    [OF 1(1,2,3), where prefix = "''sequence''" and st = "kv world_u12" and r = two_hits
       and r' = two_hits and cl' = fresh_client and x = "hit ''0000'' 3"] 1(4) 2
  have "getURIs ''sequence'' (kv world_u12) two_hits fresh_client =
     Inr (two_hits\<lparr>Results_blast :=
            map (fill_URIs ''sequence'' (kv world_u12)) (Results_blast two_hits)\<rparr>,
          fresh_client)"
    by blast
  with 1 2 3 4 show ?thesis
    by simp
qed


end
